theory Spec2Isabelle
  imports Complex_Main "HOL-Library.AList" "HOL-Library.Multiset"
begin

section \<open>Python strings\<close>

text \<open>
  A Python \<open>str\<close> is a sequence of code points. It is modelled by \<^typ>\<open>string\<close>, one
  \<^typ>\<open>char\<close> standing for one code point below 256, so that \<^const>\<open>length\<close> is
  Python's \<open>len\<close>. The character classes below are Python's own on that range.
\<close>

definition isspace :: "char \<Rightarrow> bool" where
  \<comment> \<open>\<open>str.isspace\<close> on one character, which is also the class \<open>\s\<close> of \<open>re\<close>\<close>
  "isspace c =
     (let n = (of_char c :: nat)
      in (9 \<le> n \<and> n \<le> 13) \<or> (28 \<le> n \<and> n \<le> 32) \<or> n = 133 \<or> n = 160)"

definition strip :: "string \<Rightarrow> string" where
  \<comment> \<open>\<open>s.strip()\<close>\<close>
  "strip s = rev (dropWhile isspace (rev (dropWhile isspace s)))"

function collapse_ws :: "string \<Rightarrow> string" where
  \<comment> \<open>\<open>re.sub(r'\s+', ' ', s)\<close>: every maximal run of whitespace becomes one space\<close>
  "collapse_ws [] = []"
| "collapse_ws (c # cs) =
     (if isspace c then CHR '' '' # collapse_ws (dropWhile isspace cs)
      else c # collapse_ws cs)"
  by pat_completeness auto
termination
  by (relation "measure length") (auto simp: le_imp_less_Suc length_dropWhile_le)

definition slice_index :: "nat \<Rightarrow> int \<Rightarrow> nat" where
  \<comment> \<open>how a slice bound is clamped into \<open>0..n\<close>; a negative bound counts from the end\<close>
  "slice_index n i = (if i < 0 then nat (max 0 (i + int n)) else min n (nat i))"

definition py_slice :: "'a list \<Rightarrow> int \<Rightarrow> int \<Rightarrow> 'a list" where
  \<comment> \<open>\<open>xs[i:j]\<close>\<close>
  "py_slice xs i j =
     (let a = slice_index (length xs) i; b = slice_index (length xs) j
      in take (b - a) (drop a xs))"

definition rfind :: "string \<Rightarrow> string \<Rightarrow> int" where
  \<comment> \<open>\<open>s.rfind(sub)\<close>: the highest index where \<open>sub\<close> occurs, or \<open>-1\<close>\<close>
  "rfind s sub =
     (case filter (\<lambda>i. take (length sub) (drop i s) = sub)
             (rev [0 ..< Suc (length s) - length sub]) of
        [] \<Rightarrow> - 1
      | i # _ \<Rightarrow> int i)"

section \<open>The chunker (\<open>rag_engine.py\<close>)\<close>

text \<open>
  The two attributes of \<open>RAGEngine\<close> that \<open>chunk_text\<close> reads. They are plain Python
  integers, so \<^typ>\<open>int\<close>.
\<close>

record rag_engine =
  chunk_size :: int
  chunk_overlap :: int

definition RAGEngine_init :: rag_engine where
  "RAGEngine_init = \<lparr>chunk_size = 500, chunk_overlap = 50\<rparr>"

text \<open>
  The right edge of the window that starts at \<open>start\<close>: lines 77 to 90 of the loop body.
  The test \<open>last_period > self.chunk_size * 0.5\<close> compares an integer with a float;
  Python compares the two exactly, and the product is exact for every chunk size below
  \<open>2 ^ 53\<close>, so the test is \<open>2 * last_period > chunk_size\<close>.
\<close>

definition window_end :: "rag_engine \<Rightarrow> string \<Rightarrow> int \<Rightarrow> int" where
  "window_end self text start =
     (let endpos = start + chunk_size self
      in if endpos < int (length text) then
           (let chunk = py_slice text start endpos;
                last_period = max (max (rfind chunk ''. '') (rfind chunk ''! ''))
                                  (rfind chunk ''? '')
            in if 2 * last_period > chunk_size self then start + last_period + 1
               else endpos)
         else endpos)"

text \<open>
  The \<open>while\<close> loop. Nothing in the source bounds the number of iterations, so the loop
  is a partial function: \<^const>\<open>None\<close> is a run that never returns.
\<close>

partial_function (option) chunk_loop ::
  "rag_engine \<Rightarrow> string \<Rightarrow> int \<Rightarrow> string list \<Rightarrow> string list option" where
  "chunk_loop self text start chunks =
     (if start < int (length text) then
        (let endpos = window_end self text start;
             chunk = strip (py_slice text start endpos)
         in chunk_loop self text (endpos - chunk_overlap self)
              (if chunk \<noteq> [] then chunks @ [chunk] else chunks))
      else Some chunks)"

declare chunk_loop.simps [code]

definition chunk_text :: "rag_engine \<Rightarrow> string \<Rightarrow> string list option" where
  "chunk_text self text0 =
     (let text = strip (collapse_ws text0)
      in if length text = 0 then Some [] else chunk_loop self text 0 [])"

section \<open>Character classes and regular expressions\<close>

definition is_AZ :: "char \<Rightarrow> bool" where
  \<comment> \<open>the class \<open>[A-Z]\<close>\<close>
  "is_AZ c = (let n = (of_char c :: nat) in 65 \<le> n \<and> n \<le> 90)"

definition is_az :: "char \<Rightarrow> bool" where
  \<comment> \<open>the class \<open>[a-z]\<close>\<close>
  "is_az c = (let n = (of_char c :: nat) in 97 \<le> n \<and> n \<le> 122)"

definition is_word_char :: "char \<Rightarrow> bool" where
  \<comment> \<open>the class \<open>\w\<close>: \<open>str.isalnum\<close> or the underscore\<close>
  "is_word_char c =
     (let n = (of_char c :: nat)
      in (48 \<le> n \<and> n \<le> 57) \<or> (65 \<le> n \<and> n \<le> 90) \<or> n = 95 \<or> (97 \<le> n \<and> n \<le> 122)
         \<or> n = 170 \<or> n = 178 \<or> n = 179 \<or> n = 181 \<or> n = 185 \<or> n = 186
         \<or> (188 \<le> n \<and> n \<le> 190) \<or> (192 \<le> n \<and> n \<le> 214) \<or> (216 \<le> n \<and> n \<le> 246)
         \<or> (248 \<le> n \<and> n \<le> 255))"

definition isupper :: "char \<Rightarrow> bool" where
  \<comment> \<open>\<open>str.isupper\<close> on one character\<close>
  "isupper c =
     (let n = (of_char c :: nat)
      in (65 \<le> n \<and> n \<le> 90) \<or> (192 \<le> n \<and> n \<le> 214) \<or> (216 \<le> n \<and> n \<le> 222))"

definition lower_char :: "char \<Rightarrow> char" where
  \<comment> \<open>\<open>str.lower\<close> on one character\<close>
  "lower_char c = (if isupper c then char_of (of_char c + (32 :: nat)) else c)"

definition upper_char :: "char \<Rightarrow> char" where
  \<comment> \<open>\<open>str.upper\<close> on one character. The three lower-case letters whose upper case
      lies beyond code point 255 are left as they are; the code upper-cases the first letter
      of words made of \<open>[a-z]\<close> only.\<close>
  "upper_char c =
     (let n = (of_char c :: nat)
      in if (97 \<le> n \<and> n \<le> 122) \<or> (224 \<le> n \<and> n \<le> 246) \<or> (248 \<le> n \<and> n \<le> 254)
         then char_of (n - 32) else c)"

definition str_lower :: "string \<Rightarrow> string" where
  "str_lower s = map lower_char s"

definition capitalize :: "string \<Rightarrow> string" where
  \<comment> \<open>\<open>s.capitalize()\<close>\<close>
  "capitalize s = (case s of [] \<Rightarrow> [] | c # cs \<Rightarrow> upper_char c # map lower_char cs)"

definition word_boundary :: "string \<Rightarrow> nat \<Rightarrow> bool" where
  \<comment> \<open>\<open>\b\<close> at position \<open>i\<close>: exactly one side is a word character\<close>
  "word_boundary s i =
     ((0 < i \<and> i \<le> length s \<and> is_word_char (s ! (i - 1)))
        \<noteq> (i < length s \<and> is_word_char (s ! i)))"

text \<open>
  The fragment of \<open>re\<close> that the two patterns of the entity extractor use: a character
  class, \<open>\b\<close>, concatenation and the greedy star.
\<close>

datatype rx = Cls "char \<Rightarrow> bool" | Bnd | Seq rx rx | Star rx

definition Plus :: "rx \<Rightarrow> rx" where
  "Plus r = Seq r (Star r)"

text \<open>
  A backtracking matcher. \<open>ends r s i\<close> lists the positions where a match of \<open>r\<close> that
  starts at \<open>i\<close> can end, in the order in which a backtracking engine tries them: a
  greedy star first takes one more round of its body and offers to stop only after that.
  A round that consumes nothing is not repeated; at most \<open>length s - i\<close> rounds consume
  something.
\<close>

fun iter_ends :: "(nat \<Rightarrow> nat list) \<Rightarrow> nat \<Rightarrow> nat \<Rightarrow> nat list" where
  "iter_ends f 0 i = [i]"
| "iter_ends f (Suc n) i = concat (map (iter_ends f n) (filter (\<lambda>j. i < j) (f i))) @ [i]"

primrec ends :: "rx \<Rightarrow> string \<Rightarrow> nat \<Rightarrow> nat list" where
  "ends (Cls P) s i = (if i < length s \<and> P (s ! i) then [Suc i] else [])"
| "ends Bnd s i = (if word_boundary s i then [i] else [])"
| "ends (Seq a b) s i = concat (map (ends b s) (ends a s i))"
| "ends (Star a) s i = iter_ends (ends a s) (length s - i) i"

text \<open>
  \<open>re.findall\<close> for a pattern without groups: scan from the left, take the first match
  the engine finds at the leftmost position that has one, continue behind it. (After an
  empty match the scan moves on by one character; the two patterns here match no empty
  string.)
\<close>

function findall_from :: "rx \<Rightarrow> string \<Rightarrow> nat \<Rightarrow> string list" where
  "findall_from r s p =
     (if length s < p then []
      else case ends r s p of
             [] \<Rightarrow> findall_from r s (Suc p)
           | e # _ \<Rightarrow> take (e - p) (drop p s) # findall_from r s (if p < e then e else Suc p))"
  by pat_completeness auto
termination
  by (relation "measure (\<lambda>(r, s, p). Suc (length s) - p)") auto

definition findall :: "rx \<Rightarrow> string \<Rightarrow> string list" where
  "findall r s = findall_from r s 0"

section \<open>The knowledge graph builder (\<open>knowledge_graph.py\<close>)\<close>

subsection \<open>Dictionaries\<close>

text \<open>
  A Python \<open>dict\<close> keeps its keys in insertion order, and \<open>Counter.most_common\<close>
  observes that order; so a dictionary is an association list. Assigning to a key that is
  present keeps its place, a new key goes to the end (\<^const>\<open>AList.update\<close>).
\<close>

definition counter_get :: "(string \<times> nat) list \<Rightarrow> string \<Rightarrow> nat" where
  \<comment> \<open>\<open>counter[k]\<close>: a missing key counts 0\<close>
  "counter_get c k = (case map_of c k of None \<Rightarrow> 0 | Some n \<Rightarrow> n)"

definition counter_incr :: "string \<Rightarrow> (string \<times> nat) list \<Rightarrow> (string \<times> nat) list" where
  \<comment> \<open>\<open>counter[k] += 1\<close>\<close>
  "counter_incr k c = AList.update k (counter_get c k + 1) c"

definition Counter :: "string list \<Rightarrow> (string \<times> nat) list" where
  \<comment> \<open>\<open>Counter(words)\<close>\<close>
  "Counter ws = fold counter_incr ws []"

definition most_common :: "nat \<Rightarrow> (string \<times> nat) list \<Rightarrow> (string \<times> nat) list" where
  \<comment> \<open>\<open>counter.most_common(n)\<close>: by descending count, equal counts in insertion order\<close>
  "most_common n c = take n (sort_key (\<lambda>(k, cnt). - int cnt) c)"

definition dd_get :: "(string \<times> string set) list \<Rightarrow> string \<Rightarrow> string set" where
  \<comment> \<open>the value that \<open>d[k]\<close> yields on a \<open>defaultdict(set)\<close>\<close>
  "dd_get d k = (case map_of d k of None \<Rightarrow> {} | Some S \<Rightarrow> S)"

definition dd_touch :: "(string \<times> string set) list \<Rightarrow> string \<Rightarrow> (string \<times> string set) list" where
  \<comment> \<open>the dictionary after \<open>d[k]\<close> was read: a missing key has been inserted\<close>
  "dd_touch d k = (if k \<in> fst ` set d then d else d @ [(k, {})])"

subsection \<open>Entity extraction\<close>

definition stopwords :: "string list" where
  "stopwords =
     [''the'', ''a'', ''an'', ''and'', ''or'', ''but'', ''in'', ''on'', ''at'', ''to'', ''for'',
      ''of'', ''with'', ''by'', ''from'', ''as'', ''is'', ''was'', ''are'', ''were'', ''been'',
      ''be'', ''have'', ''has'', ''had'', ''do'', ''does'', ''did'', ''will'', ''would'',
      ''could'', ''should'', ''may'', ''might'', ''can'', ''this'', ''that'', ''these'',
      ''those'', ''i'', ''you'', ''he'', ''she'', ''it'', ''we'', ''they'', ''them'', ''their'']"

definition cap_word :: rx where
  \<comment> \<open>\<open>[A-Z][a-z]+\<close>\<close>
  "cap_word = Seq (Cls is_AZ) (Plus (Cls is_az))"

definition capitalized_pattern :: rx where
  \<comment> \<open>\<open>\b[A-Z][a-z]+(?:\s+[A-Z][a-z]+)*\b\<close>\<close>
  "capitalized_pattern =
     Seq Bnd (Seq cap_word (Seq (Star (Seq (Plus (Cls isspace)) cap_word)) Bnd))"

definition letter :: rx where
  \<comment> \<open>\<open>[a-zA-Z]\<close>\<close>
  "letter = Cls (\<lambda>c. is_az c \<or> is_AZ c)"

definition word_pattern :: rx where
  \<comment> \<open>\<open>\b[a-zA-Z]{4,}\b\<close>\<close>
  "word_pattern =
     Seq Bnd (Seq letter (Seq letter (Seq letter (Seq letter (Seq (Star letter) Bnd)))))"

text \<open>
  The result is a Python \<open>set\<close>. It is modelled by a list without duplicates; the order
  in which Python iterates over the set is a separate matter (\<open>order\<close> below).
\<close>

definition extract_entities :: "string \<Rightarrow> string list" where
  "extract_entities text =
     (let matches = findall capitalized_pattern text;
          entities1 = filter (\<lambda>m. str_lower m \<notin> set stopwords \<and> 2 < length m) matches;
          words = findall word_pattern (str_lower text);
          word_freq = Counter words;
          entities2 = map (\<lambda>(word, freq). capitalize word)
                        (filter (\<lambda>(word, freq). 3 \<le> freq \<and> word \<notin> set stopwords) word_freq)
      in remdups (entities1 @ entities2))"

subsection \<open>The builder's state\<close>

record document =
  doc_text :: string
  doc_chunks :: "string list"
  doc_entities :: "string set"

record knowledge_graph =
  documents :: "(string \<times> document) list"
  entities :: "(string \<times> string set) list"
  relationships :: "(string \<times> string \<times> nat) list"
  entity_frequencies :: "(string \<times> nat) list"

definition KnowledgeGraphBuilder_init :: knowledge_graph where
  "KnowledgeGraphBuilder_init =
     \<lparr>documents = [], entities = [], relationships = [], entity_frequencies = []\<rparr>"

subsection \<open>\<open>add_document\<close>\<close>

text \<open>One round of the \<open>for entity in entities\<close> loop of \<open>add_document\<close>.\<close>

definition add_entity :: "string \<Rightarrow> string \<Rightarrow> knowledge_graph \<Rightarrow> knowledge_graph" where
  "add_entity doc_id entity self =
     self\<lparr>entities :=
            AList.update entity (insert doc_id (dd_get (entities self) entity)) (entities self),
          documents :=
            (case map_of (documents self) doc_id of
               None \<Rightarrow> documents self
             | Some doc \<Rightarrow>
                 AList.update doc_id (doc\<lparr>doc_entities := insert entity (doc_entities doc)\<rparr>)
                   (documents self)),
          entity_frequencies := counter_incr entity (entity_frequencies self)\<rparr>"

fun pairs :: "'a list \<Rightarrow> ('a \<times> 'a) list" where
  \<comment> \<open>the pairs that the two nested loops of \<open>_build_relationships\<close> visit, in their order\<close>
  "pairs [] = []"
| "pairs (x # xs) = map (Pair x) xs @ pairs xs"

text \<open>The body of the inner loop of \<open>_build_relationships\<close>.\<close>

definition relate :: "string \<times> string \<Rightarrow> knowledge_graph \<Rightarrow> knowledge_graph" where
  "relate p self =
     (case p of (entity1, entity2) \<Rightarrow>
        let ents1 = dd_touch (entities self) entity1;
            docs1 = dd_get ents1 entity1;
            ents2 = dd_touch ents1 entity2;
            docs2 = dd_get ents2 entity2;
            shared_docs = docs1 \<inter> docs2;
            self' = self\<lparr>entities := ents2\<rparr>
        in if shared_docs \<noteq> {}
           then self'\<lparr>relationships :=
                        relationships self' @ [(entity1, entity2, card shared_docs)]\<rparr>
           else self')"

definition build_relationships :: "knowledge_graph \<Rightarrow> string list \<Rightarrow> knowledge_graph" where
  "build_relationships self entities_list = fold relate (pairs entities_list) self"

text \<open>
  \<open>add_document\<close>. The parameter \<open>order\<close> is the order in which Python iterates over the
  set of extracted entities: it depends on the hash seed of the process, so it is left
  open, and the theorems hold for every order that is a rearrangement of the set. The two
  loops over the set (\<open>for entity in entities\<close> and \<open>list(entities)\<close>) see the same order.
  The lookup \<open>self.documents[doc_id]\<close> inside the loop cannot fail: the key is stored
  at the start of the call.
\<close>

definition add_document ::
  "(string list \<Rightarrow> string list) \<Rightarrow> knowledge_graph \<Rightarrow> string \<Rightarrow> string \<Rightarrow> string list
     \<Rightarrow> knowledge_graph" where
  "add_document order self doc_id text chunks =
     (let self1 = self\<lparr>documents :=
                        AList.update doc_id
                          \<lparr>doc_text = text, doc_chunks = chunks, doc_entities = {}\<rparr>
                          (documents self)\<rparr>;
          entities_list = order (extract_entities text);
          self2 = fold (add_entity doc_id) entities_list self1
      in build_relationships self2 entities_list)"

text \<open>A builder that has ingested a sequence of documents, from the fresh state.\<close>

definition ingest ::
  "(string list \<Rightarrow> string list) \<Rightarrow> (string \<times> string \<times> string list) list \<Rightarrow> knowledge_graph" where
  "ingest order docs =
     foldl (\<lambda>self (doc_id, text, chunks). add_document order self doc_id text chunks)
       KnowledgeGraphBuilder_init docs"

subsection \<open>\<open>build_graph\<close>\<close>

datatype py_error = IndexError | AssertionError

text \<open>
  A node of the view. The field \<open>size\<close>, a float computed from \<open>frequency\<close> alone, is
  not part of the model.
\<close>

record node =
  node_id :: nat
  label :: string
  node_type :: string
  color :: string
  connections :: nat
  frequency :: nat

record edge =
  source :: nat
  target :: nat
  weight :: nat

datatype graph_value = Nodes "node list" | Edges "edge list" | Total nat

definition colors :: "string list" where
  "colors = [''#00d4ff'', ''#ff00ff'', ''#00ff88'', ''#ffaa00'', ''#ff0080'', ''#00ffff'']"

definition entity_type :: "string \<Rightarrow> py_error + string" where
  \<comment> \<open>the test \<open>entity[0].isupper()\<close>; \<open>entity[0]\<close> raises on the empty string\<close>
  "entity_type entity =
     (case entity of
        [] \<Rightarrow> Inl IndexError
      | c # _ \<Rightarrow> Inr (if isupper c then ''Proper Noun'' else ''Concept''))"

definition make_node :: "knowledge_graph \<Rightarrow> nat \<times> string \<Rightarrow> py_error + node" where
  "make_node self p =
     (case p of (i, entity) \<Rightarrow>
        case entity_type entity of
          Inl err \<Rightarrow> Inl err
        | Inr ty \<Rightarrow>
            Inr \<lparr>node_id = i, label = entity, node_type = ty,
                 color = colors ! (i mod length colors),
                 connections =
                   length (filter (\<lambda>(e1, e2, w). entity = e1 \<or> entity = e2) (relationships self)),
                 frequency = counter_get (entity_frequencies self) entity\<rparr>)"

fun collect :: "(py_error + 'a) list \<Rightarrow> py_error + 'a list" where
  \<comment> \<open>the results of the rounds of a loop, up to the first one that raises\<close>
  "collect [] = Inr []"
| "collect (Inl err # rs) = Inl err"
| "collect (Inr x # rs) = (case collect rs of Inl err \<Rightarrow> Inl err | Inr xs \<Rightarrow> Inr (x # xs))"

definition index_entities :: "string list \<Rightarrow> (string \<rightharpoonup> nat)" where
  \<comment> \<open>the dictionary \<open>entity_to_index\<close> once the node loop is through\<close>
  "index_entities top_entities =
     fold (\<lambda>(i, entity) m. m(entity \<mapsto> i)) (zip [0 ..< length top_entities] top_entities)
       Map.empty"

text \<open>One round of the edge loop; the state is \<open>edges\<close> and \<open>added_edges\<close>.\<close>

definition add_edge ::
  "(string \<rightharpoonup> nat) \<Rightarrow> string \<times> string \<times> nat \<Rightarrow> edge list \<times> (nat \<times> nat) set
     \<Rightarrow> edge list \<times> (nat \<times> nat) set" where
  "add_edge entity_to_index r st =
     (case r of (entity1, entity2, w) \<Rightarrow>
      case st of (edges, added_edges) \<Rightarrow>
        (case entity_to_index entity1 of
           None \<Rightarrow> st
         | Some idx1 \<Rightarrow>
             (case entity_to_index entity2 of
                None \<Rightarrow> st
              | Some idx2 \<Rightarrow>
                  let edge_key = (min idx1 idx2, max idx1 idx2)
                  in if edge_key \<notin> added_edges \<and> 1 \<le> w
                     then (edges @ [\<lparr>source = idx1, target = idx2, weight = w\<rparr>],
                           insert edge_key added_edges)
                     else st)))"

definition graph_edges :: "knowledge_graph \<Rightarrow> string list \<Rightarrow> edge list" where
  "graph_edges self top_entities =
     fst (fold (add_edge (index_entities top_entities)) (relationships self) ([], {}))"

text \<open>The returned dictionary is the list of its keys and values.\<close>

definition build_graph :: "knowledge_graph \<Rightarrow> py_error + (string \<times> graph_value) list" where
  "build_graph self =
     (let top_entities = map fst (most_common 30 (entity_frequencies self))
      in if top_entities = [] then Inr [(''nodes'', Nodes []), (''edges'', Edges [])]
         else case collect (map (make_node self)
                              (zip [0 ..< length top_entities] top_entities)) of
                Inl err \<Rightarrow> Inl err
              | Inr nodes \<Rightarrow>
                  Inr [(''nodes'', Nodes nodes),
                       (''edges'', Edges (graph_edges self top_entities)),
                       (''total_entities'', Total (length (entities self))),
                       (''total_documents'', Total (length (documents self)))])"

subsection \<open>The edges of the view, in the words of the specification\<close>

text \<open>
  The specification says of the edge loop: keep only the first-encountered edge per
  unordered pair, in relationship order, among the triples whose two entities are both
  selected. \<open>first_per_pair\<close> says this without a loop: a triple stays when no triple
  before it in the list has the same unordered pair of entities. \<open>to_edge\<close> is the edge
  of a triple, \<open>edge_key\<close> the key under which the loop remembers it.
\<close>

definition same_pair :: "string \<times> string \<times> nat \<Rightarrow> string \<times> string \<times> nat \<Rightarrow> bool" where
  "same_pair r r' = ({fst r, fst (snd r)} = {fst r', fst (snd r')})"

definition first_per_pair :: "(string \<times> string \<times> nat) list \<Rightarrow> (string \<times> string \<times> nat) list" where
  "first_per_pair rs =
     map (\<lambda>i. rs ! i)
       (filter (\<lambda>i. \<not> list_ex (\<lambda>j. same_pair (rs ! j) (rs ! i)) [0 ..< i]) [0 ..< length rs])"

definition selected :: "string list \<Rightarrow> string \<times> string \<times> nat \<Rightarrow> bool" where
  "selected top_entities r = (fst r \<in> set top_entities \<and> fst (snd r) \<in> set top_entities)"

definition to_edge :: "string list \<Rightarrow> string \<times> string \<times> nat \<Rightarrow> edge" where
  "to_edge top_entities r =
     \<lparr>source = the (index_entities top_entities (fst r)),
      target = the (index_entities top_entities (fst (snd r))),
      weight = snd (snd r)\<rparr>"

definition edge_key :: "string list \<Rightarrow> string \<times> string \<times> nat \<Rightarrow> nat \<times> nat" where
  "edge_key top_entities r =
     (min (the (index_entities top_entities (fst r))) (the (index_entities top_entities (fst (snd r)))),
      max (the (index_entities top_entities (fst r))) (the (index_entities top_entities (fst (snd r)))))"

subsection \<open>\<open>get_entity_details\<close>\<close>

text \<open>
  The field \<open>documents\<close> of the result is \<open>list(doc_ids)\<close>, a set in an order of
  Python's choosing; the model keeps the set. A row of \<open>related_entities\<close> is the pair
  of its \<open>entity\<close> and \<open>weight\<close>.
\<close>

record entity_details =
  det_entity :: string
  det_frequency :: nat
  det_documents :: "string set"
  related_entities :: "(string \<times> nat) list"

definition related_rows :: "knowledge_graph \<Rightarrow> string \<Rightarrow> (string \<times> nat) list" where
  \<comment> \<open>the list \<open>related\<close> when the loop over the relationships is through\<close>
  "related_rows self entity =
     concat (map (\<lambda>(e1, e2, w).
                    if e1 = entity then [(e2, w)]
                    else if e2 = entity then [(e1, w)] else [])
               (relationships self))"

definition get_entity_details :: "knowledge_graph \<Rightarrow> string \<Rightarrow> entity_details option" where
  "get_entity_details self entity =
     (if entity \<notin> fst ` set (entities self) then None
      else Some \<lparr>det_entity = entity,
                 det_frequency = counter_get (entity_frequencies self) entity,
                 det_documents = dd_get (entities self) entity,
                 related_entities =
                   take 5 (sort_key (\<lambda>(e, w). - int w) (related_rows self entity))\<rparr>)"

subsection \<open>Two documents, for the examples\<close>

definition docs_ab :: "(string \<times> string \<times> string list) list" where
  "docs_ab =
     [(''A'', ''Alice met Bob in Paris.'', [''Alice met Bob in Paris.'']),
      (''B'', ''Bob left Paris.'', [''Bob left Paris.''])]"

definition kg_ab :: knowledge_graph where
  "kg_ab =
     \<lparr>documents =
        [(''A'', \<lparr>doc_text = ''Alice met Bob in Paris.'',
                 doc_chunks = [''Alice met Bob in Paris.''],
                 doc_entities = {''Alice'', ''Bob'', ''Paris''}\<rparr>),
         (''B'', \<lparr>doc_text = ''Bob left Paris.'',
                 doc_chunks = [''Bob left Paris.''], doc_entities = {''Bob'', ''Paris''}\<rparr>)],
      entities = [(''Alice'', {''A''}), (''Bob'', {''A'', ''B''}), (''Paris'', {''A'', ''B''})],
      relationships =
        [(''Alice'', ''Bob'', 1), (''Alice'', ''Paris'', 1), (''Bob'', ''Paris'', 1),
         (''Bob'', ''Paris'', 2)],
      entity_frequencies = [(''Alice'', 1), (''Bob'', 2), (''Paris'', 2)]\<rparr>"

section \<open>The similarity index (\<open>vector_store.py\<close>)\<close>

text \<open>
  A FAISS \<open>IndexFlatL2\<close> is its dimension and the rows added so far, in the order they
  were added; \<open>ntotal\<close> is the number of rows. A row is a list of scalars; the scalar
  type is left open where only the number and the length of the rows matter. A
  two-dimensional array is the list of its rows.
\<close>

record 'a faiss_index =
  d :: nat
  vectors :: "'a list list"


definition ntotal :: "'a faiss_index \<Rightarrow> nat" where
  "ntotal idx = length (vectors idx)"


text \<open>
  Searching needs arithmetic on the scalars. A \<open>float32\<close> is modelled by the real number
  it stands for; rounding is not modelled. \<open>l2_sqr\<close> is the squared Euclidean distance,
  \<open>flt_max\<close> the largest finite \<open>float32\<close>.
\<close>

definition l2_sqr :: "real list \<Rightarrow> real list \<Rightarrow> real" where
  "l2_sqr x y = sum_list (map (\<lambda>(a, b). (a - b) * (a - b)) (zip x y))"

definition flt_max :: real where
  "flt_max = (2 ^ 24 - 1) * 2 ^ 104"

text \<open>
  Modelled from the spec: \<open>IndexFlatL2.search\<close> belongs to the FAISS library and is
  not in the repository. The specification (4.2) describes it: the exact squared L2
  distance from the query to every stored vector, the \<open>k\<close> smallest of them, in ascending
  order, equal distances in insertion order. The Python wrapper of FAISS asserts that the
  query has the dimension of the index and that \<open>k > 0\<close>; when the index holds fewer than
  \<open>k\<close> rows it fills the result with the label \<open>-1\<close> at distance \<open>flt_max\<close>. The
  result is the list of the \<open>k\<close> pairs of a distance and a label.
\<close>

definition index_search ::
  "real faiss_index \<Rightarrow> real list \<Rightarrow> int \<Rightarrow> py_error + (real \<times> int) list" where
  "index_search idx x k =
     (if length x \<noteq> d idx \<or> k \<le> 0 then Inl AssertionError
      else
        let found = take (nat k)
                      (sort_key fst
                         (map (\<lambda>i. (l2_sqr x (vectors idx ! i), int i)) [0 ..< ntotal idx]))
        in Inr (found @ replicate (nat k - length found) (flt_max, - 1)))"

text \<open>
  A metadata dictionary maps keys to strings or integers. The two files that
  \<open>_save_index\<close> writes are part of the state: \<open>faiss_file\<close> and \<open>pkl_file\<close> are
  \<^const>\<open>None\<close> while the file is missing or cannot be read.
\<close>

datatype py_value = PStr string | PInt int

type_synonym metadata = "(string \<times> py_value) list"

record 'a vector_store =
  dimension :: nat
  index :: "'a faiss_index"
  chunks_metadata :: "metadata list"
  chunk_texts :: "string list"
  faiss_file :: "'a faiss_index option"
  pkl_file :: "(metadata list \<times> string list) option"







text \<open>
  The embedding model is outside the repository. It is the parameter \<open>embedder\<close>, the
  vector of one text; \<open>generate_embeddings\<close> returns one row for each text, in order.
\<close>

definition generate_embeddings :: "(string \<Rightarrow> 'a list) \<Rightarrow> string list \<Rightarrow> 'a list list" where
  "generate_embeddings embedder texts = map embedder texts"






subsection \<open>\<open>similarity_search\<close>\<close>

definition py_nth :: "'a list \<Rightarrow> int \<Rightarrow> py_error + 'a" where
  \<comment> \<open>\<open>xs[i]\<close>: an index below 0 counts from the end, one outside the list raises\<close>
  "py_nth xs i =
     (if 0 \<le> i \<and> i < int (length xs) then Inr (xs ! nat i)
      else if i < 0 \<and> 0 \<le> int (length xs) + i then Inr (xs ! nat (int (length xs) + i))
      else Inl IndexError)"

record search_result =
  res_text :: string
  res_metadata :: metadata
  score :: real
  rank :: nat

text \<open>
  One round of the loop over the rows that FAISS returned: \<open>None\<close> when the guard
  \<open>idx < len(self.chunk_texts)\<close> skips the row.
\<close>

definition format_result ::
  "real vector_store \<Rightarrow> nat \<times> real \<times> int \<Rightarrow> py_error + search_result option" where
  "format_result self p =
     (case p of (i, distance, idx) \<Rightarrow>
        if idx < int (length (chunk_texts self)) then
          (case py_nth (chunk_texts self) idx of
             Inl err \<Rightarrow> Inl err
           | Inr t \<Rightarrow>
               (case py_nth (chunks_metadata self) idx of
                  Inl err \<Rightarrow> Inl err
                | Inr m \<Rightarrow>
                    Inr (Some \<lparr>res_text = t, res_metadata = m,
                               score = 1 / (1 + distance), rank = i + 1\<rparr>)))
        else Inr None)"

definition similarity_search ::
  "(string \<Rightarrow> real list) \<Rightarrow> real vector_store \<Rightarrow> string \<Rightarrow> int
     \<Rightarrow> py_error + search_result list" where
  "similarity_search embedder self query top_k =
     (if ntotal (index self) = 0 then Inr []
      else
        let query_embedding = generate_embeddings embedder [query] ! 0
        in case index_search (index self) query_embedding
                  (min top_k (int (ntotal (index self)))) of
             Inl err \<Rightarrow> Inl err
           | Inr found \<Rightarrow>
               (case collect (map (format_result self) (zip [0 ..< length found] found)) of
                  Inl err \<Rightarrow> Inl err
                | Inr rs \<Rightarrow>
                    Inr (concat (map (\<lambda>r. case r of None \<Rightarrow> [] | Some x \<Rightarrow> [x]) rs))))"

subsection \<open>The invariant of the index\<close>






subsection \<open>The order of the search results\<close>



section \<open>Properties of the chunker\<close>

subsection \<open>Normalised text\<close>

lemma strip_Nil_or_ends:
  "strip s = [] \<or> (\<not> isspace (hd (strip s)) \<and> \<not> isspace (last (strip s)))"
proof (cases "strip s = []")
  case True
  then show ?thesis by simp
next
  case False
  define ys where "ys = dropWhile isspace s"
  define zs where "zs = dropWhile isspace (rev ys)"
  have s: "strip s = rev zs" by (simp add: strip_def ys_def zs_def)
  with False have zs: "zs \<noteq> []" by simp
  then have "\<not> isspace (hd zs)" unfolding zs_def by (rule hd_dropWhile)
  then have l: "\<not> isspace (last (strip s))" using zs s by (simp add: last_rev)
  have "ys \<noteq> []" using zs by (auto simp: zs_def)
  then have hy: "\<not> isspace (hd ys)" unfolding ys_def by (rule hd_dropWhile)
  obtain us where "rev ys = us @ zs"
    unfolding zs_def by (metis takeWhile_dropWhile_id)
  then have "ys = rev zs @ rev us" by (metis rev_append rev_rev_ident)
  then have "hd ys = hd (rev zs)" using zs by simp
  with hy s l show ?thesis by simp
qed

lemma strip_fixed:
  assumes "t \<noteq> []" "\<not> isspace (hd t)" "\<not> isspace (last t)"
  shows "strip t = t"
proof -
  have "dropWhile isspace t = t" using assms by (simp add: dropWhile_eq_self_iff)
  moreover have "dropWhile isspace (rev t) = rev t"
    using assms by (simp add: dropWhile_eq_self_iff hd_rev)
  ultimately show ?thesis by (simp add: strip_def)
qed

lemma strip_strip: "strip (strip s) = strip s"
proof (cases "strip s = []")
  case True
  have "strip [] = []" by (simp add: strip_def)
  with True show ?thesis by simp
next
  case False
  with strip_Nil_or_ends [of s] show ?thesis by (simp add: strip_fixed)
qed

lemma collapse_ws_no_space: "\<forall>c \<in> set s. \<not> isspace c \<Longrightarrow> collapse_ws s = s"
  by (induction s) auto

lemma py_slice_all: "int (length xs) \<le> j \<Longrightarrow> py_slice xs 0 j = xs"
  by (simp add: py_slice_def slice_index_def)

lemma window_end_last:
  "\<not> start + chunk_size self < int (length text) \<Longrightarrow>
   window_end self text start = start + chunk_size self"
  by (simp add: window_end_def)

subsection \<open>A text shorter than one window\<close>

text \<open>
  C1, as the code has it. Let \<open>t\<close> be the normalised text. When \<open>t\<close> is non-empty,
  shorter than \<open>chunk_size\<close> and at most \<open>chunk_size - chunk_overlap\<close> characters long,
  \<open>chunk_text\<close> returns exactly one chunk, equal to \<open>t\<close>.
\<close>

theorem chunk_text_short_one_chunk:
  assumes "t = strip (collapse_ws s)" and "t \<noteq> []"
    and "int (length t) < chunk_size self"
    and "int (length t) \<le> chunk_size self - chunk_overlap self"
  shows "chunk_text self s = Some [t]"
proof -
  have st: "strip t = t" using assms(1) by (simp add: strip_strip)
  have we: "window_end self t 0 = chunk_size self"
    using assms(3) by (simp add: window_end_last)
  have "chunk_loop self t 0 [] =
        chunk_loop self t (chunk_size self - chunk_overlap self) [t]"
    using assms(2,3) by (subst chunk_loop.simps) (simp add: we py_slice_all st)
  also have "\<dots> = Some [t]"
    using assms(4) by (subst chunk_loop.simps) simp
  finally show ?thesis using assms(1,2) by (simp add: chunk_text_def)
qed

theorem chunk_text_short_one_chunk_witness:
  "''hello world'' = strip (collapse_ws ''  hello   world  '') \<and>
   ''hello world'' \<noteq> [] \<and>
   int (length ''hello world'') < chunk_size RAGEngine_init \<and>
   int (length ''hello world'') \<le> chunk_size RAGEngine_init - chunk_overlap RAGEngine_init \<and>
   chunk_text RAGEngine_init ''  hello   world  '' = Some [''hello world'']"
proof -
  have n: "''hello world'' = strip (collapse_ws ''  hello   world  '')"
    by (simp add: strip_def isspace_def)
  have e: "''hello world'' \<noteq> []" by simp
  have b: "int (length ''hello world'') < chunk_size RAGEngine_init"
    "int (length ''hello world'') \<le> chunk_size RAGEngine_init - chunk_overlap RAGEngine_init"
    by (simp_all add: RAGEngine_init_def)
  note r = chunk_text_short_one_chunk [OF n e b]
  show ?thesis by (intro conjI) (rule n, rule e, rule b, rule b, rule r)
qed

text \<open>
  The claim as stated fails between the two bounds. With the engine's own configuration
  (500 and 50) a text of 451 letters is its own normal form and is shorter than
  \<open>chunk_size\<close>, yet the loop runs a second time from offset 450 and returns a second
  chunk, the last letter.
\<close>

theorem chunk_text_short_two_chunks:
  "strip (collapse_ws (replicate 451 CHR ''a'')) = replicate 451 CHR ''a'' \<and>
   replicate 451 CHR ''a'' \<noteq> [] \<and>
   int (length (replicate 451 CHR ''a'')) < chunk_size RAGEngine_init \<and>
   chunk_text RAGEngine_init (replicate 451 CHR ''a'') =
     Some [replicate 451 CHR ''a'', ''a'']"
proof -
  let ?t = "replicate 451 CHR ''a''"
  have ns: "\<not> isspace CHR ''a''" by (simp add: isspace_def)
  have c: "collapse_ws ?t = ?t" by (rule collapse_ws_no_space) (simp add: ns)
  have ne: "?t \<noteq> []" by simp
  have "hd ?t = CHR ''a''" "last ?t = CHR ''a''" by simp_all
  then have st: "strip ?t = ?t" using ns ne by (simp add: strip_fixed)
  have sa: "strip ''a'' = ''a''" by (simp add: strip_def ns)
  have w0: "window_end RAGEngine_init ?t 0 = 500"
    by (simp add: window_end_def RAGEngine_init_def)
  have w1: "window_end RAGEngine_init ?t 450 = 950"
    by (simp add: window_end_def RAGEngine_init_def)
  have s0: "py_slice ?t 0 500 = ?t" by (simp add: py_slice_all)
  have "drop 450 ?t = ''a''" by simp
  then have s1: "py_slice ?t 450 950 = ''a''"
    by (simp add: py_slice_def slice_index_def)
  have co: "chunk_overlap RAGEngine_init = 50" by (simp add: RAGEngine_init_def)
  have "chunk_loop RAGEngine_init ?t 0 [] = chunk_loop RAGEngine_init ?t 450 [?t]"
    by (subst chunk_loop.simps) (simp add: w0 s0 st co Let_def)
  also have "\<dots> = chunk_loop RAGEngine_init ?t 900 [?t, ''a'']"
    by (subst chunk_loop.simps) (simp add: w1 s1 sa co Let_def)
  also have "\<dots> = Some [?t, ''a'']"
    by (subst chunk_loop.simps) simp
  finally have "chunk_text RAGEngine_init ?t = Some [?t, ''a'']"
    by (simp add: chunk_text_def c st)
  with c st show ?thesis by (simp add: RAGEngine_init_def)
qed

subsection \<open>Progress and termination of the loop\<close>

lemma window_end_progress:
  assumes "chunk_overlap self < chunk_size self"
    and "2 * chunk_overlap self \<le> chunk_size self + 2"
  shows "start < window_end self text start - chunk_overlap self"
  using assms by (auto simp: window_end_def Let_def)

lemma chunk_loop_terminates:
  assumes "chunk_overlap self < chunk_size self"
    and "2 * chunk_overlap self \<le> chunk_size self + 2"
  shows "\<exists>r. chunk_loop self text start chunks = Some r"
proof (induction "nat (int (length text) - start)" arbitrary: start chunks rule: less_induct)
  case less
  show ?case
  proof (cases "start < int (length text)")
    case False
    then show ?thesis by (subst chunk_loop.simps) simp
  next
    case True
    define nxt where "nxt = window_end self text start - chunk_overlap self"
    have "start < nxt" unfolding nxt_def using assms by (rule window_end_progress)
    with True have "nat (int (length text) - nxt) < nat (int (length text) - start)"
      by linarith
    from less [OF this] show ?thesis
      using True by (subst chunk_loop.simps) (simp add: Let_def nxt_def)
  qed
qed

text \<open>
  A run that stays at offset 0: with a window of 6 and an overlap of 5, the sentence
  end found at offset 4 puts the next start back on 0.
\<close>

lemma chunk_loop_stuck:
  assumes "chunk_loop self text start chunks = Some y"
  shows "\<not> (self = \<lparr>chunk_size = 6, chunk_overlap = 5\<rparr> \<and> text = ''abcd. efgh'' \<and> start = 0)"
proof -
  let ?P = "\<lambda>sf tx st (ch :: string list) (r :: string list).
    \<not> (sf = \<lparr>chunk_size = 6, chunk_overlap = 5\<rparr> \<and> tx = ''abcd. efgh'' \<and> st = (0::int))"
  have w: "window_end \<lparr>chunk_size = 6, chunk_overlap = 5\<rparr> ''abcd. efgh'' 0 = 5"
    by (simp add: window_end_def py_slice_def slice_index_def rfind_def)
  have "?P self text start chunks y"
  proof (rule chunk_loop.raw_induct [where P = ?P, OF _ assms])
    fix loop sf tx st ch r
    assume IH: "\<And>sf tx st ch r. loop sf tx st ch = Some r \<Longrightarrow> ?P sf tx st ch r"
      and eq: "(if st < int (length tx) then
                  let endpos = window_end sf tx st; chunk = strip (py_slice tx st endpos)
                  in loop sf tx (endpos - chunk_overlap sf)
                       (if chunk \<noteq> [] then ch @ [chunk] else ch)
                else Some ch) = Some r"
    show "?P sf tx st ch r"
    proof
      assume a: "sf = \<lparr>chunk_size = 6, chunk_overlap = 5\<rparr> \<and> tx = ''abcd. efgh'' \<and> st = 0"
      with eq obtain c where
        "loop \<lparr>chunk_size = 6, chunk_overlap = 5\<rparr> ''abcd. efgh'' 0 c = Some r"
        by (simp add: w Let_def split: if_splits)
      from IH [OF this] show False by simp
    qed
  qed
  then show ?thesis .
qed

text \<open>
  C2, as the code has it. For every text and every configuration with
  \<open>chunk_overlap < chunk_size\<close> and \<open>2 * chunk_overlap \<le> chunk_size + 2\<close>, the start of
  the next window (the window's end, snapped or not, minus \<open>chunk_overlap\<close>) is strictly
  greater than the start of the current one, and \<open>chunk_text\<close> returns.
\<close>

theorem chunk_text_progress_terminates:
  assumes "chunk_overlap self < chunk_size self"
    and "2 * chunk_overlap self \<le> chunk_size self + 2"
  shows "start < window_end self text start - chunk_overlap self \<and>
         (\<exists>chunks. chunk_text self s = Some chunks)"
proof
  show "start < window_end self text start - chunk_overlap self"
    using assms by (rule window_end_progress)
  show "\<exists>chunks. chunk_text self s = Some chunks"
    using chunk_loop_terminates [OF assms] by (simp add: chunk_text_def Let_def)
qed

theorem chunk_text_progress_terminates_witness:
  "chunk_overlap \<lparr>chunk_size = 6, chunk_overlap = 4\<rparr> < chunk_size \<lparr>chunk_size = 6, chunk_overlap = 4\<rparr> \<and>
   2 * chunk_overlap \<lparr>chunk_size = 6, chunk_overlap = 4\<rparr>
     \<le> chunk_size \<lparr>chunk_size = 6, chunk_overlap = 4\<rparr> + 2 \<and>
   window_end \<lparr>chunk_size = 6, chunk_overlap = 4\<rparr> ''abcd. efgh'' 0 = 5 \<and>
   0 < window_end \<lparr>chunk_size = 6, chunk_overlap = 4\<rparr> ''abcd. efgh'' 0
         - chunk_overlap \<lparr>chunk_size = 6, chunk_overlap = 4\<rparr> \<and>
   (\<exists>chunks. chunk_text \<lparr>chunk_size = 6, chunk_overlap = 4\<rparr> ''abcd. efgh'' = Some chunks)"
proof -
  have w: "window_end \<lparr>chunk_size = 6, chunk_overlap = 4\<rparr> ''abcd. efgh'' 0 = 5"
    by (simp add: window_end_def py_slice_def slice_index_def rfind_def)
  from chunk_text_progress_terminates
    [of "\<lparr>chunk_size = 6, chunk_overlap = 4\<rparr>" 0 "''abcd. efgh''" "''abcd. efgh''"] w
  show ?thesis by simp
qed

text \<open>
  The claim as stated fails for an overlap above half the window. With a window of 6 and
  an overlap of 5 (so \<open>chunk_overlap < chunk_size\<close>) the first window of
  \<open>abcd. efgh\<close> is snapped to end at 5, the next start is 0 again, and the call
  never returns.
\<close>

theorem chunk_text_no_progress:
  "chunk_overlap \<lparr>chunk_size = 6, chunk_overlap = 5\<rparr> < chunk_size \<lparr>chunk_size = 6, chunk_overlap = 5\<rparr> \<and>
   window_end \<lparr>chunk_size = 6, chunk_overlap = 5\<rparr> ''abcd. efgh'' 0
     - chunk_overlap \<lparr>chunk_size = 6, chunk_overlap = 5\<rparr> = 0 \<and>
   chunk_text \<lparr>chunk_size = 6, chunk_overlap = 5\<rparr> ''abcd. efgh'' = None"
proof -
  have w: "window_end \<lparr>chunk_size = 6, chunk_overlap = 5\<rparr> ''abcd. efgh'' 0 = 5"
    by (simp add: window_end_def py_slice_def slice_index_def rfind_def)
  have n: "strip (collapse_ws ''abcd. efgh'') = ''abcd. efgh''"
    by (simp add: strip_def isspace_def)
  have "chunk_loop \<lparr>chunk_size = 6, chunk_overlap = 5\<rparr> ''abcd. efgh'' 0 [] = None"
    using chunk_loop_stuck [of "\<lparr>chunk_size = 6, chunk_overlap = 5\<rparr>" "''abcd. efgh''" 0 "[]"]
    by (cases "chunk_loop \<lparr>chunk_size = 6, chunk_overlap = 5\<rparr> ''abcd. efgh'' 0 []") auto
  moreover have "chunk_text \<lparr>chunk_size = 6, chunk_overlap = 5\<rparr> ''abcd. efgh'' =
      chunk_loop \<lparr>chunk_size = 6, chunk_overlap = 5\<rparr> ''abcd. efgh'' 0 []"
    unfolding chunk_text_def Let_def n by simp
  ultimately show ?thesis by (simp add: w)
qed

section \<open>Properties of the knowledge graph builder\<close>

subsection \<open>The example documents\<close>

lemma extract_a: "extract_entities ''Alice met Bob in Paris.'' = [''Alice'', ''Bob'', ''Paris'']"
  by code_simp

lemma extract_b: "extract_entities ''Bob left Paris.'' = [''Bob'', ''Paris'']"
  by code_simp

lemma ingest_ab: "ingest (\<lambda>xs. xs) docs_ab = kg_ab"
  unfolding ingest_def docs_ab_def foldl.simps prod.case add_document_def Let_def extract_a extract_b
  by code_simp

subsection \<open>The shape of the view\<close>

lemma most_common_Nil: "most_common n c = [] \<longleftrightarrow> n = 0 \<or> c = []"
  by (simp add: most_common_def take_eq_Nil) (metis length_0_conv length_sort)

lemma build_graph_keys:
  assumes "entity_frequencies self \<noteq> []" and "build_graph self = Inr view"
  shows "map fst view = [''nodes'', ''edges'', ''total_entities'', ''total_documents''] \<and>
         map_of view ''total_entities'' = Some (Total (length (entities self))) \<and>
         map_of view ''total_documents'' = Some (Total (length (documents self)))"
  using assms most_common_Nil [of 30 "entity_frequencies self"]
  by (auto simp: build_graph_def Let_def split: sum.splits)

text \<open>
  C6 fails on the code. While no entity has been counted, \<open>build_graph\<close> returns early
  with the two keys \<open>nodes\<close> and \<open>edges\<close> only: a fresh builder does, and so does a
  builder that has ingested one document in which no entity was found, although it holds
  one document. The other return of the function has all four keys
  (\<open>build_graph_keys\<close>).
\<close>

theorem build_graph_no_entities:
  "build_graph KnowledgeGraphBuilder_init = Inr [(''nodes'', Nodes []), (''edges'', Edges [])] \<and>
   length (documents (ingest (\<lambda>xs. xs) [(''d1'', ''hello'', [''hello''])])) = 1 \<and>
   build_graph (ingest (\<lambda>xs. xs) [(''d1'', ''hello'', [''hello''])]) =
     Inr [(''nodes'', Nodes []), (''edges'', Edges [])]"
proof (intro conjI)
  show "build_graph KnowledgeGraphBuilder_init = Inr [(''nodes'', Nodes []), (''edges'', Edges [])]"
    by (simp add: build_graph_def KnowledgeGraphBuilder_init_def most_common_def)
  show "length (documents (ingest (\<lambda>xs. xs) [(''d1'', ''hello'', [''hello''])])) = 1"
    by code_simp
  show "build_graph (ingest (\<lambda>xs. xs) [(''d1'', ''hello'', [''hello''])]) =
     Inr [(''nodes'', Nodes []), (''edges'', Edges [])]"
    by code_simp
qed

subsection \<open>Frequencies\<close>

lemma counter_get_incr:
  "counter_get (counter_incr k c) e = counter_get c e + (if e = k then 1 else 0)"
  by (simp add: counter_get_def counter_incr_def update_conv')

lemma counter_get_fold:
  "counter_get (fold counter_incr es c) e = counter_get c e + count_list es e"
  by (induction es arbitrary: c) (auto simp: counter_get_incr)

lemma frequencies_add_entities:
  "entity_frequencies (fold (add_entity doc_id) es self) =
   fold counter_incr es (entity_frequencies self)"
  by (induction es arbitrary: self) (simp_all add: add_entity_def)

lemma frequencies_relate: "entity_frequencies (relate p self) = entity_frequencies self"
  by (cases p) (simp add: relate_def Let_def)

lemma frequencies_build_relationships:
  "entity_frequencies (build_relationships self es) = entity_frequencies self"
proof -
  have "entity_frequencies (fold relate ps self) = entity_frequencies self" for ps
    by (induction ps arbitrary: self) (simp_all add: frequencies_relate)
  then show ?thesis by (simp add: build_relationships_def)
qed

lemma frequencies_add_document:
  "entity_frequencies (add_document order self doc_id text chunks) =
   fold counter_incr (order (extract_entities text)) (entity_frequencies self)"
  by (simp add: add_document_def Let_def frequencies_build_relationships frequencies_add_entities)

lemma distinct_extract_entities: "distinct (extract_entities text)"
  by (simp add: extract_entities_def Let_def)

lemma count_list_order:
  assumes "\<And>xs. mset (order xs) = mset xs"
  shows "count_list (order (extract_entities text)) e =
         (if e \<in> set (extract_entities text) then 1 else 0)"
proof -
  have "count_list (order (extract_entities text)) e = count (mset (order (extract_entities text))) e"
    by (simp add: count_mset)
  also have "\<dots> = count (mset (extract_entities text)) e" by (simp add: assms)
  also have "\<dots> = (if e \<in> set (extract_entities text) then 1 else 0)"
    using distinct_extract_entities [of "text"] by (simp add: distinct_count_atmost_1)
  finally show ?thesis .
qed

lemma ingest_snoc:
  "ingest order (docs @ [(doc_id, text, chunks)]) =
   add_document order (ingest order docs) doc_id text chunks"
  by (simp add: ingest_def)

text \<open>
  C8. Whatever the order in which Python iterates over the entity set, one call of
  \<open>add_document\<close> adds exactly 1 to the counter of every entity of the document's
  extracted set and leaves every other counter as it was; so after a fresh builder has
  ingested a list of documents, the counter of an entity is the number of those documents
  whose extracted set contains it.
\<close>

theorem entity_frequency_counts_documents:
  assumes "\<And>xs. mset (order xs) = mset xs"
  shows "counter_get (entity_frequencies (add_document order self doc_id text chunks)) e =
           counter_get (entity_frequencies self) e
             + (if e \<in> set (extract_entities text) then 1 else 0) \<and>
         counter_get (entity_frequencies (ingest order docs)) e =
           length (filter (\<lambda>(doc_id, text, chunks). e \<in> set (extract_entities text)) docs)"
proof
  have step: "counter_get (entity_frequencies (add_document order self doc_id tx chunks)) e =
           counter_get (entity_frequencies self) e
             + (if e \<in> set (extract_entities tx) then 1 else 0)"
    for tx self doc_id chunks
    by (simp only: frequencies_add_document counter_get_fold count_list_order [OF assms])
  then show "counter_get (entity_frequencies (add_document order self doc_id text chunks)) e =
           counter_get (entity_frequencies self) e
             + (if e \<in> set (extract_entities text) then 1 else 0)" .
  show "counter_get (entity_frequencies (ingest order docs)) e =
           length (filter (\<lambda>(doc_id, text, chunks). e \<in> set (extract_entities text)) docs)"
  proof (induction docs rule: rev_induct)
    case Nil
    show ?case by (simp add: ingest_def KnowledgeGraphBuilder_init_def counter_get_def)
  next
    case (snoc d docs)
    obtain doc_id tx chunks where d: "d = (doc_id, tx, chunks)" by (cases d)
    show ?case unfolding d ingest_snoc step using snoc by simp
  qed
qed

theorem entity_frequency_counts_documents_witness:
  "(\<forall>xs :: string list. mset (rev xs) = mset xs) \<and>
   counter_get (entity_frequencies (ingest rev docs_ab)) ''Bob'' = 2 \<and>
   counter_get (entity_frequencies (ingest rev docs_ab)) ''Alice'' = 1"
proof -
  have h: "\<And>xs :: string list. mset (rev xs) = mset xs" by simp
  note t = entity_frequency_counts_documents [OF h, THEN conjunct2, of docs_ab]
  have "counter_get (entity_frequencies (ingest rev docs_ab)) ''Bob'' = 2"
    by (simp only: t) (simp add: docs_ab_def extract_a extract_b)
  moreover have "counter_get (entity_frequencies (ingest rev docs_ab)) ''Alice'' = 1"
    by (simp only: t) (simp add: docs_ab_def extract_a extract_b)
  ultimately show ?thesis using h by blast
qed

subsection \<open>Extracted entities start with a capital\<close>

lemma iter_ends_ge: "e \<in> set (iter_ends f n i) \<Longrightarrow> i \<le> e"
proof (induction n arbitrary: i)
  case 0
  then show ?case by simp
next
  case (Suc n)
  then show ?case by (fastforce dest: Suc.IH)
qed

lemma ends_ge: "e \<in> set (ends r s i) \<Longrightarrow> i \<le> e"
proof (induction r arbitrary: i e)
  case (Cls P)
  then show ?case by (auto split: if_splits)
next
  case Bnd
  then show ?case by (auto split: if_splits)
next
  case (Seq a b)
  from Seq.prems obtain j where "j \<in> set (ends a s i)" "e \<in> set (ends b s j)" by auto
  then have "i \<le> j" "j \<le> e" by (auto dest: Seq.IH)
  then show ?case by simp
next
  case (Star a)
  then show ?case by (auto dest: iter_ends_ge)
qed

lemma ends_Seq_iff:
  "e \<in> set (ends (Seq a b) s i) \<longleftrightarrow> (\<exists>j \<in> set (ends a s i). e \<in> set (ends b s j))"
  by simp

lemma ends_Bnd_Seq: "e \<in> set (ends (Seq Bnd r) s p) \<Longrightarrow> e \<in> set (ends r s p)"
  by (auto split: if_splits)

lemma ends_Cls_Seq:
  assumes "e \<in> set (ends (Seq (Cls P) r) s p)"
  shows "p < length s \<and> P (s ! p) \<and> p < e"
proof -
  from assms have "p < length s \<and> P (s ! p)" and "e \<in> set (ends r s (Suc p))"
    by (auto split: if_splits)
  then show ?thesis by (auto dest: ends_ge)
qed

lemma ends_capitalized_pattern:
  assumes "e \<in> set (ends capitalized_pattern s p)"
  shows "p < length s \<and> is_AZ (s ! p) \<and> p < e"
proof -
  let ?rest = "Seq (Star (Seq (Plus (Cls isspace)) cap_word)) Bnd"
  from assms have "e \<in> set (ends (Seq cap_word ?rest) s p)"
    unfolding capitalized_pattern_def by (rule ends_Bnd_Seq)
  then obtain j where j: "j \<in> set (ends cap_word s p)" and e: "e \<in> set (ends ?rest s j)"
    unfolding ends_Seq_iff [of e cap_word] by blast
  from e have "j \<le> e" by (rule ends_ge)
  moreover from j have "p < length s \<and> is_AZ (s ! p) \<and> p < j"
    unfolding cap_word_def by (rule ends_Cls_Seq)
  ultimately show ?thesis by simp
qed

lemma ends_word_pattern:
  assumes "e \<in> set (ends word_pattern s p)"
  shows "p < length s \<and> (is_az (s ! p) \<or> is_AZ (s ! p)) \<and> p < e"
proof -
  from assms have "e \<in> set (ends (Seq letter (Seq letter (Seq letter (Seq letter (Seq (Star letter) Bnd))))) s p)"
    unfolding word_pattern_def by (rule ends_Bnd_Seq)
  then show ?thesis unfolding letter_def by (rule ends_Cls_Seq)
qed

lemma findall_from_match:
  "m \<in> set (findall_from r s p) \<Longrightarrow> \<exists>q e. e \<in> set (ends r s q) \<and> m = take (e - q) (drop q s)"
proof (induction r s p rule: findall_from.induct)
  case (1 r s p)
  show ?case
  proof (cases "length s < p")
    case True
    with "1.prems" show ?thesis by (subst (asm) findall_from.simps) simp
  next
    case False
    show ?thesis
    proof (cases "ends r s p")
      case Nil
      with False "1.prems" have "m \<in> set (findall_from r s (Suc p))"
        by (subst (asm) findall_from.simps) simp
      with "1.IH"(1) [OF False Nil] show ?thesis .
    next
      case (Cons e es)
      with False "1.prems" have
        "m = take (e - p) (drop p s) \<or> m \<in> set (findall_from r s (if p < e then e else Suc p))"
        by (subst (asm) findall_from.simps) simp
      then show ?thesis
      proof
        assume "m = take (e - p) (drop p s)"
        moreover have "e \<in> set (ends r s p)" using Cons by simp
        ultimately show ?thesis by blast
      next
        assume "m \<in> set (findall_from r s (if p < e then e else Suc p))"
        with "1.IH"(2) [OF False Cons] show ?thesis .
      qed
    qed
  qed
qed

lemma match_head:
  assumes "m = take (e - q) (drop q s)" "q < length s" "q < e"
  shows "m \<noteq> [] \<and> hd m = s ! q"
proof -
  from assms(2) obtain c cs where d: "drop q s = c # cs" and c: "c = s ! q"
    by (metis Cons_nth_drop_Suc)
  from assms(3) obtain k where "e - q = Suc k" by (metis Suc_diff_Suc)
  with assms(1) d c show ?thesis by simp
qed

lemma findall_capitalized:
  assumes "m \<in> set (findall capitalized_pattern s)"
  shows "m \<noteq> [] \<and> is_AZ (hd m)"
proof -
  from assms obtain q e where e: "e \<in> set (ends capitalized_pattern s q)"
    and m: "m = take (e - q) (drop q s)"
    unfolding findall_def by (blast dest: findall_from_match)
  from ends_capitalized_pattern [OF e] match_head [OF m] show ?thesis by simp
qed

lemma findall_word:
  assumes "w \<in> set (findall word_pattern s)"
  shows "w \<noteq> [] \<and> (is_az (hd w) \<or> is_AZ (hd w))"
proof -
  from assms obtain q e where e: "e \<in> set (ends word_pattern s q)"
    and m: "w = take (e - q) (drop q s)"
    unfolding findall_def by (blast dest: findall_from_match)
  from ends_word_pattern [OF e] match_head [OF m] show ?thesis by simp
qed

lemma is_AZ_upper_char: "is_az c \<or> is_AZ c \<Longrightarrow> is_AZ (upper_char c)"
  by (auto simp: is_az_def is_AZ_def upper_char_def Let_def)

lemma capitalize_word:
  assumes "w \<noteq> []" "is_az (hd w) \<or> is_AZ (hd w)"
  shows "capitalize w \<noteq> [] \<and> is_AZ (hd (capitalize w))"
proof (cases w)
  case Nil
  with assms show ?thesis by simp
next
  case (Cons c cs)
  with assms have "is_AZ (upper_char c)" by (simp add: is_AZ_upper_char)
  with Cons show ?thesis by (simp add: capitalize_def)
qed

lemma keys_counter_incr: "fst ` set (counter_incr k c) = insert k (fst ` set c)"
  by (simp add: counter_incr_def dom_update)

lemma keys_fold_counter_incr: "fst ` set (fold counter_incr ks c) = set ks \<union> fst ` set c"
  by (induction ks arbitrary: c) (auto simp: keys_counter_incr)

lemma keys_Counter: "fst ` set (Counter ws) = set ws"
  by (simp add: Counter_def keys_fold_counter_incr)

lemma extract_entities_capital:
  assumes "e \<in> set (extract_entities s)"
  shows "e \<noteq> [] \<and> is_AZ (hd e)"
proof -
  from assms consider
    (match) "e \<in> set (findall capitalized_pattern s)"
  | (word) w where "w \<in> fst ` set (Counter (findall word_pattern (str_lower s)))" "e = capitalize w"
    by (auto simp: extract_entities_def Let_def) force
  then show ?thesis
  proof cases
    case match
    then show ?thesis by (rule findall_capitalized)
  next
    case word
    then have "w \<in> set (findall word_pattern (str_lower s))" by (simp add: keys_Counter)
    from findall_word [OF this] word(2) show ?thesis by (simp add: capitalize_word)
  qed
qed

lemma is_AZ_isupper: "is_AZ c \<Longrightarrow> isupper c"
  by (simp add: is_AZ_def isupper_def Let_def)


lemma set_order:
  assumes "\<And>xs. mset (order xs) = mset xs"
  shows "set (order xs) = set xs"
  using assms [of xs] by (rule mset_eq_setD)

lemma keys_frequencies_add_document:
  "fst ` set (entity_frequencies (add_document order self doc_id s chunks)) =
   set (order (extract_entities s)) \<union> fst ` set (entity_frequencies self)"
  by (simp only: frequencies_add_document keys_fold_counter_incr)

lemma ingest_keys_capital:
  assumes "\<And>xs. mset (order xs) = mset xs"
    and "k \<in> fst ` set (entity_frequencies (ingest order docs))"
  shows "k \<noteq> [] \<and> is_AZ (hd k)"
  using assms(2)
proof (induction docs arbitrary: k rule: rev_induct)
  case Nil
  then show ?case by (simp add: ingest_def KnowledgeGraphBuilder_init_def)
next
  case (snoc doc docs)
  obtain doc_id s chunks where doc: "doc = (doc_id, s, chunks)" by (cases doc)
  from snoc.prems have "k \<in> set (extract_entities s) \<or>
      k \<in> fst ` set (entity_frequencies (ingest order docs))"
    unfolding doc ingest_snoc keys_frequencies_add_document set_order [OF assms(1)] by simp
  then show ?case
  proof
    assume "k \<in> set (extract_entities s)"
    then show ?thesis by (rule extract_entities_capital)
  next
    assume "k \<in> fst ` set (entity_frequencies (ingest order docs))"
    then show ?thesis by (rule snoc.IH)
  qed
qed

lemma collect_map_Inr:
  assumes "\<forall>x \<in> set xs. \<exists>y. f x = Inr y \<and> Q y"
  shows "\<exists>ys. collect (map f xs) = Inr ys \<and> (\<forall>y \<in> set ys. Q y)"
  using assms
proof (induction xs)
  case Nil
  then show ?case by simp
next
  case (Cons x xs)
  then obtain y ys where "f x = Inr y" "Q y" "collect (map f xs) = Inr ys" "\<forall>y \<in> set ys. Q y"
    by auto
  then show ?case by simp
qed

lemma make_node_capital:
  assumes "entity \<noteq> []" "is_AZ (hd entity)"
  shows "\<exists>n. make_node self (i, entity) = Inr n \<and> node_type n = ''Proper Noun''"
  using assms
  by (cases entity) (simp_all add: make_node_def entity_type_def is_AZ_isupper)

lemma top_entities_keys: "set (map fst (most_common n c)) \<subseteq> fst ` set c"
proof -
  have "set (most_common n c) \<subseteq> set c"
    unfolding most_common_def using set_take_subset [of n "sort_key (\<lambda>(k, cnt). - int cnt) c"] by simp
  then show ?thesis by auto
qed

text \<open>What \<open>build_graph\<close> returns on a builder that has ingested documents.\<close>

lemma build_graph_ingest:
  assumes "\<And>xs. mset (order xs) = mset xs"
  shows "\<exists>ns. (\<forall>n \<in> set ns. node_type n = ''Proper Noun'') \<and>
           build_graph (ingest order docs) =
             Inr [(''nodes'', Nodes ns),
                  (''edges'', Edges (graph_edges (ingest order docs)
                     (map fst (most_common 30 (entity_frequencies (ingest order docs)))))),
                  (''total_entities'', Total (length (entities (ingest order docs)))),
                  (''total_documents'', Total (length (documents (ingest order docs))))] \<or>
         map fst (most_common 30 (entity_frequencies (ingest order docs))) = [] \<and>
         build_graph (ingest order docs) = Inr [(''nodes'', Nodes []), (''edges'', Edges [])]"
proof -
  let ?K = "ingest order docs"
  let ?top = "map fst (most_common 30 (entity_frequencies ?K))"
  show ?thesis
  proof (cases "?top = []")
    case True
    then have "build_graph ?K = Inr [(''nodes'', Nodes []), (''edges'', Edges [])]"
      by (simp add: build_graph_def)
    with True show ?thesis by blast
  next
    case False
    have "\<forall>p \<in> set (zip [0 ..< length ?top] ?top).
            \<exists>n. make_node ?K p = Inr n \<and> node_type n = ''Proper Noun''"
    proof
      fix p assume p: "p \<in> set (zip [0 ..< length ?top] ?top)"
      obtain i entity where ie: "p = (i, entity)" by (cases p)
      with p have "entity \<in> set ?top" by (auto dest: set_zip_rightD)
      with top_entities_keys have "entity \<in> fst ` set (entity_frequencies ?K)" by blast
      from ingest_keys_capital [OF assms this] show
        "\<exists>n. make_node ?K p = Inr n \<and> node_type n = ''Proper Noun''"
        unfolding ie by (simp add: make_node_capital)
    qed
    from collect_map_Inr [OF this] obtain ns where
      ns: "collect (map (make_node ?K) (zip [0 ..< length ?top] ?top)) = Inr ns"
      and ty: "\<forall>n \<in> set ns. node_type n = ''Proper Noun''" by blast
    from False ns have "build_graph ?K =
        Inr [(''nodes'', Nodes ns), (''edges'', Edges (graph_edges ?K ?top)),
             (''total_entities'', Total (length (entities ?K))),
             (''total_documents'', Total (length (documents ?K)))]"
      by (simp add: build_graph_def Let_def)
    with ty show ?thesis by blast
  qed
qed

text \<open>
  C10. Every extracted entity is non-empty and starts with an upper-case letter: a match
  of the capitalised pattern starts with \<open>[A-Z]\<close>, and a frequent word starts with a
  letter and is capitalised. So on every builder that has ingested documents from the
  fresh state, in whatever order Python iterates over the entity sets, \<open>build_graph\<close>
  returns a view (the test \<open>entity[0]\<close> does not raise) and every node of it has the
  type \<open>Proper Noun\<close>; the assignment of \<open>Concept\<close> is never reached.
\<close>

theorem nodes_are_proper_nouns:
  assumes "\<And>xs. mset (order xs) = mset xs"
  shows "(\<forall>e \<in> set (extract_entities s). e \<noteq> [] \<and> isupper (hd e)) \<and>
         (\<exists>view ns. build_graph (ingest order docs) = Inr view \<and>
            map_of view ''nodes'' = Some (Nodes ns) \<and>
            (\<forall>n \<in> set ns. node_type n = ''Proper Noun''))"
proof
  show "\<forall>e \<in> set (extract_entities s). e \<noteq> [] \<and> isupper (hd e)"
    by (auto dest: extract_entities_capital is_AZ_isupper)
  from build_graph_ingest [OF assms, of docs]
  show "\<exists>view ns. build_graph (ingest order docs) = Inr view \<and>
            map_of view ''nodes'' = Some (Nodes ns) \<and>
            (\<forall>n \<in> set ns. node_type n = ''Proper Noun'')"
  proof (elim disjE exE conjE)
    fix ns
    assume "\<forall>n \<in> set ns. node_type n = ''Proper Noun''"
      and "build_graph (ingest order docs) =
             Inr [(''nodes'', Nodes ns),
                  (''edges'', Edges (graph_edges (ingest order docs)
                     (map fst (most_common 30 (entity_frequencies (ingest order docs)))))),
                  (''total_entities'', Total (length (entities (ingest order docs)))),
                  (''total_documents'', Total (length (documents (ingest order docs))))]"
    then show ?thesis by simp
  next
    assume "build_graph (ingest order docs) = Inr [(''nodes'', Nodes []), (''edges'', Edges [])]"
    then show ?thesis by simp
  qed
qed

theorem nodes_are_proper_nouns_witness:
  "(\<forall>xs :: string list. mset (rev xs) = mset xs) \<and>
   ''Bob'' \<in> set (extract_entities ''Bob left Paris.'') \<and> isupper (hd ''Bob'') \<and>
   (\<exists>view ns. build_graph (ingest rev docs_ab) = Inr view \<and>
      map_of view ''nodes'' = Some (Nodes ns))"
proof -
  have h: "\<And>xs :: string list. mset (rev xs) = mset xs" by simp
  have b: "''Bob'' \<in> set (extract_entities ''Bob left Paris.'')" by (simp add: extract_b)
  note t = nodes_are_proper_nouns [OF h, of "''Bob left Paris.''" docs_ab]
  from t b have "isupper (hd ''Bob'')" by blast
  moreover from t have "\<exists>view ns. build_graph (ingest rev docs_ab) = Inr view \<and>
      map_of view ''nodes'' = Some (Nodes ns)" by blast
  ultimately show ?thesis using h b by blast
qed

subsection \<open>Relationships\<close>

lemma dd_get_update: "dd_get (AList.update k v al) e = (if e = k then v else dd_get al e)"
  by (simp add: dd_get_def update_conv')

lemma entities_add_entity:
  "entities (add_entity doc_id e self) =
   AList.update e (insert doc_id (dd_get (entities self) e)) (entities self)"
  by (simp add: add_entity_def)

lemma relationships_add_entity: "relationships (add_entity doc_id e self) = relationships self"
  by (simp add: add_entity_def)

lemma relationships_add_entities:
  "relationships (fold (add_entity doc_id) es self) = relationships self"
  by (induction es arbitrary: self) (simp_all add: relationships_add_entity)

lemma keys_add_entities:
  "fst ` set (entities (fold (add_entity doc_id) es self)) = set es \<union> fst ` set (entities self)"
  by (induction es arbitrary: self) (auto simp: entities_add_entity dom_update)

lemma dd_get_add_entities:
  "dd_get (entities (fold (add_entity doc_id) es self)) e =
   (if e \<in> set es then insert doc_id (dd_get (entities self) e) else dd_get (entities self) e)"
  by (induction es arbitrary: self) (auto simp: entities_add_entity dd_get_update)

lemma dd_touch_present: "k \<in> fst ` set al \<Longrightarrow> dd_touch al k = al"
  by (simp add: dd_touch_def)

lemma relate_present:
  assumes "a \<in> fst ` set (entities self)" "b \<in> fst ` set (entities self)"
    and "dd_get (entities self) a \<inter> dd_get (entities self) b \<noteq> {}"
  shows "relate (a, b) self =
         self\<lparr>relationships := relationships self @
                 [(a, b, card (dd_get (entities self) a \<inter> dd_get (entities self) b))]\<rparr>"
  using assms by (simp add: relate_def Let_def dd_touch_present)

lemma fold_relate:
  assumes "\<forall>(a, b) \<in> set ps. a \<in> fst ` set (entities self) \<and> b \<in> fst ` set (entities self) \<and>
             dd_get (entities self) a \<inter> dd_get (entities self) b \<noteq> {}"
  shows "fold relate ps self =
         self\<lparr>relationships := relationships self @
                 map (\<lambda>(a, b). (a, b, card (dd_get (entities self) a \<inter> dd_get (entities self) b))) ps\<rparr>"
  using assms
proof (induction ps arbitrary: self)
  case Nil
  then show ?case by simp
next
  case (Cons p ps)
  obtain a b where p: "p = (a, b)" by (cases p)
  let ?s = "self\<lparr>relationships := relationships self @
                 [(a, b, card (dd_get (entities self) a \<inter> dd_get (entities self) b))]\<rparr>"
  have r: "relate (a, b) self = ?s" using Cons.prems p by (intro relate_present) auto
  have pre: "\<forall>(a, b) \<in> set ps. a \<in> fst ` set (entities ?s) \<and> b \<in> fst ` set (entities ?s) \<and>
             dd_get (entities ?s) a \<inter> dd_get (entities ?s) b \<noteq> {}"
    using Cons.prems by simp
  show ?case using Cons.IH [OF pre] by (simp add: r p)
qed

lemma set_pairs: "(a, b) \<in> set (pairs xs) \<Longrightarrow> a \<in> set xs \<and> b \<in> set xs"
  by (induction xs) auto

lemma pairs_distinct: "distinct xs \<Longrightarrow> (a, b) \<in> set (pairs xs) \<Longrightarrow> a \<noteq> b"
  by (induction xs) (auto dest: set_pairs)

lemma count_list_Pair:
  "count_list (map (Pair x) xs) (a, b) = (if a = x then count_list xs b else 0)"
  by (induction xs) auto

lemma count_list_distinct: "distinct xs \<Longrightarrow> count_list xs b = (if b \<in> set xs then 1 else 0)"
  by (induction xs) auto

lemma count_pairs_outside: "a \<notin> set xs \<or> b \<notin> set xs \<Longrightarrow> count_list (pairs xs) (a, b) = 0"
  by (auto simp: count_list_0_iff dest: set_pairs)

lemma pairs_once:
  assumes "distinct xs" "a \<in> set xs" "b \<in> set xs" "a \<noteq> b"
  shows "count_list (pairs xs) (a, b) + count_list (pairs xs) (b, a) = 1"
  using assms
proof (induction xs)
  case Nil
  then show ?case by simp
next
  case (Cons x xs)
  consider "a = x" | "b = x" | "a \<noteq> x" "b \<noteq> x" by blast
  then show ?case
  proof cases
    case 1
    with Cons.prems have "b \<in> set xs" "a \<notin> set xs" "b \<noteq> x" by auto
    with 1 Cons.prems show ?thesis
      by (simp add: count_list_Pair count_list_distinct count_pairs_outside)
  next
    case 2
    with Cons.prems have "a \<in> set xs" "b \<notin> set xs" "a \<noteq> x" by auto
    with 2 Cons.prems show ?thesis
      by (simp add: count_list_Pair count_list_distinct count_pairs_outside)
  next
    case 3
    with Cons.prems have "a \<in> set xs" "b \<in> set xs" "distinct xs" by auto
    with 3 Cons.prems Cons.IH show ?thesis by (simp add: count_list_Pair)
  qed
qed

lemma add_document_unfold:
  "add_document order self doc_id s chunks =
   build_relationships
     (fold (add_entity doc_id) (order (extract_entities s))
        (self\<lparr>documents := AList.update doc_id
                  \<lparr>doc_text = s, doc_chunks = chunks, doc_entities = {}\<rparr> (documents self)\<rparr>))
     (order (extract_entities s))"
  by (simp add: add_document_def Let_def)

lemma build_relationships_after:
  assumes "\<forall>e \<in> set es. e \<in> fst ` set (entities mid) \<and> doc_id \<in> dd_get (entities mid) e"
  shows "build_relationships mid es =
         mid\<lparr>relationships := relationships mid @
               map (\<lambda>(a, b). (a, b, card (dd_get (entities mid) a \<inter> dd_get (entities mid) b)))
                 (pairs es)\<rparr>"
proof -
  have "\<forall>(a, b) \<in> set (pairs es). a \<in> fst ` set (entities mid) \<and> b \<in> fst ` set (entities mid) \<and>
             dd_get (entities mid) a \<inter> dd_get (entities mid) b \<noteq> {}"
    using assms by (auto dest!: set_pairs)
  from fold_relate [OF this] show ?thesis by (simp add: build_relationships_def)
qed

lemma add_document_relationships:
  assumes mid: "mid = fold (add_entity doc_id) (order (extract_entities s))
        (self\<lparr>documents := AList.update doc_id
                  \<lparr>doc_text = s, doc_chunks = chunks, doc_entities = {}\<rparr> (documents self)\<rparr>)"
  shows "add_document order self doc_id s chunks =
         mid\<lparr>relationships := relationships self @
               map (\<lambda>(a, b). (a, b, card (dd_get (entities mid) a \<inter> dd_get (entities mid) b)))
                 (pairs (order (extract_entities s)))\<rparr>"
proof -
  have pre: "\<forall>e \<in> set (order (extract_entities s)).
      e \<in> fst ` set (entities mid) \<and> doc_id \<in> dd_get (entities mid) e"
    unfolding mid keys_add_entities dd_get_add_entities by simp
  have rel: "relationships mid = relationships self"
    unfolding mid by (simp add: relationships_add_entities)
  have "add_document order self doc_id s chunks =
        build_relationships mid (order (extract_entities s))"
    unfolding mid by (rule add_document_unfold)
  also note build_relationships_after [OF pre]
  finally show ?thesis unfolding rel .
qed

lemma entities_fold_add_entity:
  "entities (fold (add_entity doc_id) es self) =
   fold (\<lambda>e E. AList.update e (insert doc_id (dd_get E e)) E) es (entities self)"
  by (induction es arbitrary: self) (simp_all add: entities_add_entity)

lemma entities_add_document:
  "entities (add_document order self doc_id s chunks) =
   entities (fold (add_entity doc_id) (order (extract_entities s)) self)"
  by (simp add: add_document_relationships [OF refl] entities_fold_add_entity)

lemma dd_get_add_document:
  "dd_get (entities (add_document order self doc_id s chunks)) e =
   (if e \<in> set (order (extract_entities s)) then insert doc_id (dd_get (entities self) e)
    else dd_get (entities self) e)"
  by (simp only: entities_add_document dd_get_add_entities)

lemma relationships_add_document:
  "relationships (add_document order self doc_id s chunks) =
   relationships self @
   map (\<lambda>(a, b). (a, b, card (dd_get (entities (add_document order self doc_id s chunks)) a \<inter>
                              dd_get (entities (add_document order self doc_id s chunks)) b)))
     (pairs (order (extract_entities s)))"
  by (simp add: add_document_relationships [OF refl])

subsection \<open>Invariants of an ingesting builder\<close>

lemma ingest_finite_docs:
  "finite (dd_get (entities (ingest order docs)) e)"
proof (induction docs arbitrary: e rule: rev_induct)
  case Nil
  show ?case by (simp add: ingest_def KnowledgeGraphBuilder_init_def dd_get_def)
next
  case (snoc doc docs)
  obtain doc_id s chunks where doc: "doc = (doc_id, s, chunks)" by (cases doc)
  show ?case unfolding doc ingest_snoc dd_get_add_document using snoc.IH by simp
qed

lemma distinct_counter_incr:
  "distinct (map fst c) \<Longrightarrow> distinct (map fst (counter_incr k c))"
  by (simp add: counter_incr_def distinct_update)

lemma distinct_fold_counter_incr:
  "distinct (map fst c) \<Longrightarrow> distinct (map fst (fold counter_incr ks c))"
  by (induction ks arbitrary: c) (simp_all add: distinct_counter_incr)

lemma ingest_distinct_frequencies:
  "distinct (map fst (entity_frequencies (ingest order docs)))"
proof (induction docs rule: rev_induct)
  case Nil
  show ?case by (simp add: ingest_def KnowledgeGraphBuilder_init_def)
next
  case (snoc doc docs)
  obtain doc_id s chunks where doc: "doc = (doc_id, s, chunks)" by (cases doc)
  show ?case unfolding doc ingest_snoc frequencies_add_document
    using snoc.IH by (rule distinct_fold_counter_incr)
qed

lemma new_weight_positive:
  assumes "\<And>e. finite (dd_get (entities self) e)"
    and "(a, b) \<in> set (pairs (order (extract_entities s)))"
  shows "doc_id \<in> dd_get (entities (add_document order self doc_id s chunks)) a \<inter>
                  dd_get (entities (add_document order self doc_id s chunks)) b \<and>
         1 \<le> card (dd_get (entities (add_document order self doc_id s chunks)) a \<inter>
                   dd_get (entities (add_document order self doc_id s chunks)) b)"
proof -
  let ?K = "add_document order self doc_id s chunks"
  from assms(2) have "a \<in> set (order (extract_entities s))" "b \<in> set (order (extract_entities s))"
    by (auto dest: set_pairs)
  then have m: "doc_id \<in> dd_get (entities ?K) a \<inter> dd_get (entities ?K) b"
    by (simp add: dd_get_add_document)
  have "finite (dd_get (entities ?K) a)" by (simp add: dd_get_add_document assms(1))
  then have "finite (dd_get (entities ?K) a \<inter> dd_get (entities ?K) b)" by simp
  with m have "0 < card (dd_get (entities ?K) a \<inter> dd_get (entities ?K) b)"
    by (metis card_gt_0_iff empty_iff)
  with m show ?thesis by simp
qed

lemma ingest_weights_positive:
  "(a, b, w) \<in> set (relationships (ingest order docs)) \<Longrightarrow> 1 \<le> w"
proof (induction docs arbitrary: a b w rule: rev_induct)
  case Nil
  then show ?case by (simp add: ingest_def KnowledgeGraphBuilder_init_def)
next
  case (snoc doc docs)
  obtain doc_id s chunks where doc: "doc = (doc_id, s, chunks)" by (cases doc)
  let ?K = "add_document order (ingest order docs) doc_id s chunks"
  from snoc.prems have "(a, b, w) \<in> set (relationships (ingest order docs)) \<or>
     ((a, b) \<in> set (pairs (order (extract_entities s))) \<and>
      w = card (dd_get (entities ?K) a \<inter> dd_get (entities ?K) b))"
    unfolding doc ingest_snoc by (subst (asm) relationships_add_document) auto
  then show ?case
  proof
    assume "(a, b, w) \<in> set (relationships (ingest order docs))"
    then show ?thesis by (rule snoc.IH)
  next
    assume "(a, b) \<in> set (pairs (order (extract_entities s))) \<and>
      w = card (dd_get (entities ?K) a \<inter> dd_get (entities ?K) b)"
    with new_weight_positive [of "ingest order docs" a b order s doc_id chunks]
    show ?thesis by (simp add: ingest_finite_docs)
  qed
qed

subsection \<open>The index of the selected entities\<close>

lemma index_entities_snoc:
  "index_entities (tops @ [x]) = (index_entities tops)(x \<mapsto> length tops)"
  by (simp add: index_entities_def)

lemma index_entities_Some:
  "distinct tops \<Longrightarrow> index_entities tops e = Some i \<longleftrightarrow> i < length tops \<and> tops ! i = e"
proof (induction tops arbitrary: e i rule: rev_induct)
  case Nil
  show ?case by (simp add: index_entities_def)
next
  case (snoc x tops)
  then have d: "distinct tops" and x: "x \<notin> set tops" by simp_all
  show ?case
  proof (cases "e = x")
    case True
    with x show ?thesis
      by (auto simp: index_entities_snoc nth_append less_Suc_eq)
  next
    case False
    then show ?thesis
      by (auto simp: index_entities_snoc snoc.IH [OF d] nth_append less_Suc_eq)
  qed
qed

lemma index_entities_dom: "index_entities tops e \<noteq> None \<longleftrightarrow> e \<in> set tops"
  by (induction tops rule: rev_induct) (auto simp: index_entities_snoc index_entities_def)

lemma index_entities_inj:
  assumes "distinct tops" "a \<in> set tops" "b \<in> set tops"
    and "the (index_entities tops a) = the (index_entities tops b)"
  shows "a = b"
proof -
  from assms(2,3) obtain i j where "index_entities tops a = Some i" "index_entities tops b = Some j"
    using index_entities_dom by (metis not_Some_eq)
  with assms(1,4) show ?thesis by (auto simp: index_entities_Some)
qed

subsection \<open>The edge loop keeps the first triple of each pair\<close>

lemma add_edge_unselected:
  "\<not> selected tops r \<Longrightarrow> add_edge (index_entities tops) r st = st"
proof -
  assume a: "\<not> selected tops r"
  obtain e1 e2 w where r: "r = (e1, e2, w)" by (cases r)
  obtain es added where st: "st = (es, added)" by (cases st)
  from a r have "index_entities tops e1 = None \<or> index_entities tops e2 = None"
    using index_entities_dom [of tops e1] index_entities_dom [of tops e2]
    by (auto simp: selected_def)
  then show ?thesis by (auto simp: add_edge_def r st split: option.splits)
qed

lemma add_edge_selected:
  assumes "selected tops r" "1 \<le> snd (snd r)"
  shows "add_edge (index_entities tops) r (es, added) =
         (if edge_key tops r \<in> added then (es, added)
          else (es @ [to_edge tops r], insert (edge_key tops r) added))"
proof -
  obtain e1 e2 w where r: "r = (e1, e2, w)" by (cases r)
  from assms(1) r obtain i1 i2 where "index_entities tops e1 = Some i1" "index_entities tops e2 = Some i2"
    using index_entities_dom [of tops e1] index_entities_dom [of tops e2]
    by (auto simp: selected_def)
  with assms(2) show ?thesis
    by (simp add: add_edge_def r edge_key_def to_edge_def Let_def)
qed

lemma fold_add_edge_filter:
  "fold (add_edge (index_entities tops)) rs st =
   fold (add_edge (index_entities tops)) (filter (selected tops) rs) st"
  by (induction rs arbitrary: st) (simp_all add: add_edge_unselected)

lemma min_max_eq_iff:
  "(min a b, max a b) = (min c d, max c d) \<longleftrightarrow> (a = c \<and> b = d) \<or> (a = d \<and> b = c)"
  for a b c d :: nat
  by (auto simp: min_def max_def split: if_splits)

lemma edge_key_same_pair:
  assumes "distinct tops" "selected tops r" "selected tops r'"
  shows "edge_key tops r = edge_key tops r' \<longleftrightarrow> same_pair r r'"
proof -
  let ?i = "\<lambda>e. the (index_entities tops e)"
  have inj: "?i x = ?i y \<longleftrightarrow> x = y" if "x \<in> set tops" "y \<in> set tops" for x y
    using index_entities_inj [OF assms(1) that] by auto
  from assms(2,3) have m: "fst r \<in> set tops" "fst (snd r) \<in> set tops"
    "fst r' \<in> set tops" "fst (snd r') \<in> set tops" by (simp_all add: selected_def)
  have "edge_key tops r = edge_key tops r' \<longleftrightarrow>
        (?i (fst r) = ?i (fst r') \<and> ?i (fst (snd r)) = ?i (fst (snd r'))) \<or>
        (?i (fst r) = ?i (fst (snd r')) \<and> ?i (fst (snd r)) = ?i (fst r'))"
    unfolding edge_key_def by (rule min_max_eq_iff)
  also have "\<dots> \<longleftrightarrow> (fst r = fst r' \<and> fst (snd r) = fst (snd r')) \<or>
        (fst r = fst (snd r') \<and> fst (snd r) = fst r')"
    using m by (simp add: inj)
  also have "\<dots> \<longleftrightarrow> same_pair r r'"
    unfolding same_pair_def by (simp add: doubleton_eq_iff)
  finally show ?thesis .
qed

lemma first_per_pair_snoc:
  "first_per_pair (xs @ [x]) =
   first_per_pair xs @ (if \<exists>y \<in> set xs. same_pair y x then [] else [x])"
proof -
  let ?P = "\<lambda>rs i. \<not> list_ex (\<lambda>j. same_pair (rs ! j) (rs ! i)) [0 ..< i]"
  have f: "filter (?P (xs @ [x])) [0 ..< length xs] = filter (?P xs) [0 ..< length xs]"
    by (rule filter_cong) (auto simp: list_ex_iff nth_append)
  have m: "map (\<lambda>i. (xs @ [x]) ! i) (filter (?P xs) [0 ..< length xs]) =
           map (\<lambda>i. xs ! i) (filter (?P xs) [0 ..< length xs])"
    by (rule map_cong) (auto simp: nth_append)
  have "?P (xs @ [x]) (length xs) \<longleftrightarrow> \<not> (\<exists>j < length xs. same_pair (xs ! j) x)"
    by (auto simp: list_ex_iff nth_append)
  also have "\<dots> \<longleftrightarrow> \<not> (\<exists>y \<in> set xs. same_pair y x)"
    by (metis in_set_conv_nth)
  finally have l: "?P (xs @ [x]) (length xs) \<longleftrightarrow> \<not> (\<exists>y \<in> set xs. same_pair y x)" .
  show ?thesis
    unfolding first_per_pair_def using l by (simp add: f m)
qed

lemma fold_add_edge_selected:
  assumes "distinct tops" "\<forall>r \<in> set xs. selected tops r \<and> 1 \<le> snd (snd r)"
  shows "fold (add_edge (index_entities tops)) xs ([], {}) =
         (map (to_edge tops) (first_per_pair xs), edge_key tops ` set xs)"
  using assms(2)
proof (induction xs rule: rev_induct)
  case Nil
  show ?case by (simp add: first_per_pair_def)
next
  case (snoc x xs)
  then have x: "selected tops x" "1 \<le> snd (snd x)"
    and xs: "\<forall>r \<in> set xs. selected tops r \<and> 1 \<le> snd (snd r)" by simp_all
  have k: "edge_key tops x \<in> edge_key tops ` set xs \<longleftrightarrow> (\<exists>y \<in> set xs. same_pair y x)"
    using xs x(1) edge_key_same_pair [OF assms(1)] by (metis (no_types, lifting) image_iff)
  show ?case
  proof (cases "\<exists>y \<in> set xs. same_pair y x")
    case True
    with k have "edge_key tops x \<in> edge_key tops ` set xs" by simp
    with True show ?thesis
      by (simp add: snoc.IH [OF xs] add_edge_selected [OF x] first_per_pair_snoc insert_absorb)
  next
    case False
    with k have "edge_key tops x \<notin> edge_key tops ` set xs" by simp
    with False show ?thesis
      by (simp add: snoc.IH [OF xs] add_edge_selected [OF x] first_per_pair_snoc)
  qed
qed

lemma graph_edges_first:
  assumes "distinct tops" "\<forall>(a, b, w) \<in> set (relationships self). 1 \<le> w"
  shows "graph_edges self tops =
         map (to_edge tops) (first_per_pair (filter (selected tops) (relationships self)))"
proof -
  have "\<forall>r \<in> set (filter (selected tops) (relationships self)). selected tops r \<and> 1 \<le> snd (snd r)"
    using assms(2) by auto
  from fold_add_edge_selected [OF assms(1) this] show ?thesis
    unfolding graph_edges_def by (subst fold_add_edge_filter) simp
qed

lemma distinct_order:
  assumes "\<And>xs. mset (order xs) = mset xs" "distinct xs"
  shows "distinct (order xs)"
  using assms(2) mset_eq_imp_distinct_iff [OF assms(1) [of xs]] by simp

lemma distinct_top_entities:
  assumes "distinct (map fst c)"
  shows "distinct (map fst (most_common n c))"
proof -
  from assms have "distinct c" "inj_on fst (set c)" by (simp_all add: distinct_map)
  then have "distinct (map fst (sort_key (\<lambda>(k, cnt). - int cnt) c))"
    by (simp add: distinct_map)
  then show ?thesis by (simp add: most_common_def take_map [symmetric])
qed

lemma build_graph_ingest_edges:
  assumes "\<And>xs. mset (order xs) = mset xs"
  shows "\<exists>view. build_graph (ingest order docs) = Inr view \<and>
           map_of view ''edges'' =
             Some (Edges (map (to_edge (map fst (most_common 30 (entity_frequencies (ingest order docs)))))
               (first_per_pair
                 (filter (selected (map fst (most_common 30 (entity_frequencies (ingest order docs)))))
                    (relationships (ingest order docs))))))"
proof -
  let ?K = "ingest order docs"
  let ?top = "map fst (most_common 30 (entity_frequencies ?K))"
  have d: "distinct ?top"
    using ingest_distinct_frequencies by (rule distinct_top_entities)
  have w: "\<forall>(a, b, w) \<in> set (relationships ?K). 1 \<le> w"
    by (auto dest: ingest_weights_positive)
  note g = graph_edges_first [OF d w]
  from build_graph_ingest [OF assms, of docs] show ?thesis
  proof (elim disjE exE conjE)
    fix ns
    assume "build_graph ?K =
             Inr [(''nodes'', Nodes ns), (''edges'', Edges (graph_edges ?K ?top)),
                  (''total_entities'', Total (length (entities ?K))),
                  (''total_documents'', Total (length (documents ?K)))]"
    then show ?thesis by (simp add: g)
  next
    assume e: "?top = []" and b: "build_graph ?K = Inr [(''nodes'', Nodes []), (''edges'', Edges [])]"
    have "filter (selected ?top) (relationships ?K) = []"
      unfolding e by (simp add: selected_def)
    then show ?thesis by (simp add: b first_per_pair_def)
  qed
qed

text \<open>
  C7. Let a builder have ingested any documents from the fresh state, and let
  \<open>add_document\<close> be called on it; the order in which Python iterates over the entity
  set is any rearrangement. Then
  \<^item> the relationship list is the old one followed by one triple for each pair that the
    two nested loops visit, whose weight is the size of the intersection of the two
    entities' document sets as they are after the call;
  \<^item> the two entities of such a pair are distinct entities of the document's extracted
    set, their document sets both contain the current document, and the weight is at
    least 1;
  \<^item> every unordered pair of distinct extracted entities is visited exactly once (in one
    of its two orientations); nothing is merged with the triples already there;
  \<^item> \<open>build_graph\<close> returns a view whose edges are, in relationship order, the first
    triple of each unordered pair among the triples whose two entities are both selected.
\<close>

theorem relationships_per_pair:
  fixes order docs doc_id raw_text chunks
  defines "K0 \<equiv> ingest order docs"
    and "K \<equiv> add_document order (ingest order docs) doc_id raw_text chunks"
    and "ents \<equiv> order (extract_entities raw_text)"
    and "tops \<equiv> map fst (most_common 30
                   (entity_frequencies (add_document order (ingest order docs) doc_id raw_text chunks)))"
  assumes perm: "\<And>xs. mset (order xs) = mset xs"
  shows "relationships K =
           relationships K0 @
           map (\<lambda>(a, b). (a, b, card (dd_get (entities K) a \<inter> dd_get (entities K) b)))
             (pairs ents) \<and>
         (\<forall>(a, b) \<in> set (pairs ents).
            a \<in> set (extract_entities raw_text) \<and> b \<in> set (extract_entities raw_text) \<and> a \<noteq> b \<and>
            doc_id \<in> dd_get (entities K) a \<inter> dd_get (entities K) b \<and>
            1 \<le> card (dd_get (entities K) a \<inter> dd_get (entities K) b)) \<and>
         (\<forall>a \<in> set (extract_entities raw_text). \<forall>b \<in> set (extract_entities raw_text).
            a \<noteq> b \<longrightarrow> count_list (pairs ents) (a, b) + count_list (pairs ents) (b, a) = 1) \<and>
         (\<exists>view. build_graph K = Inr view \<and>
            map_of view ''edges'' =
              Some (Edges (map (to_edge tops)
                             (first_per_pair (filter (selected tops) (relationships K))))))"
proof (intro conjI)
  have se: "set ents = set (extract_entities raw_text)"
    unfolding ents_def by (rule set_order [OF perm])
  have de: "distinct ents"
    unfolding ents_def using perm distinct_extract_entities by (rule distinct_order)
  show "relationships K =
           relationships K0 @
           map (\<lambda>(a, b). (a, b, card (dd_get (entities K) a \<inter> dd_get (entities K) b)))
             (pairs ents)"
    unfolding K_def K0_def ents_def by (rule relationships_add_document)
  show "\<forall>(a, b) \<in> set (pairs ents).
            a \<in> set (extract_entities raw_text) \<and> b \<in> set (extract_entities raw_text) \<and> a \<noteq> b \<and>
            doc_id \<in> dd_get (entities K) a \<inter> dd_get (entities K) b \<and>
            1 \<le> card (dd_get (entities K) a \<inter> dd_get (entities K) b)"
  proof (clarify, intro conjI)
    fix a b assume p: "(a, b) \<in> set (pairs ents)"
    from set_pairs [OF p] se show "a \<in> set (extract_entities raw_text)"
      "b \<in> set (extract_entities raw_text)" by simp_all
    from pairs_distinct [OF de p] show "a \<noteq> b" .
    from p have "doc_id \<in> dd_get (entities K) a \<inter> dd_get (entities K) b \<and>
        1 \<le> card (dd_get (entities K) a \<inter> dd_get (entities K) b)"
      unfolding K_def ents_def by (intro new_weight_positive ingest_finite_docs)
    then show "doc_id \<in> dd_get (entities K) a \<inter> dd_get (entities K) b"
      "1 \<le> card (dd_get (entities K) a \<inter> dd_get (entities K) b)" by simp_all
  qed
  show "\<forall>a \<in> set (extract_entities raw_text). \<forall>b \<in> set (extract_entities raw_text).
            a \<noteq> b \<longrightarrow> count_list (pairs ents) (a, b) + count_list (pairs ents) (b, a) = 1"
    using pairs_once [OF de] se by simp
  have "K = ingest order (docs @ [(doc_id, raw_text, chunks)])"
    unfolding K_def by (simp only: ingest_snoc)
  then show "\<exists>view. build_graph K = Inr view \<and>
            map_of view ''edges'' =
              Some (Edges (map (to_edge tops)
                             (first_per_pair (filter (selected tops) (relationships K)))))"
    unfolding tops_def K_def [symmetric]
    using build_graph_ingest_edges [OF perm, of "docs @ [(doc_id, raw_text, chunks)]"] by simp
qed

theorem relationships_per_pair_witness:
  "add_document (\<lambda>xs. xs) (ingest (\<lambda>xs. xs) [(''A'', ''Alice met Bob in Paris.'', [''Alice met Bob in Paris.''])])
     ''B'' ''Bob left Paris.'' [''Bob left Paris.''] = kg_ab \<and>
   relationships kg_ab =
     [(''Alice'', ''Bob'', 1), (''Alice'', ''Paris'', 1), (''Bob'', ''Paris'', 1), (''Bob'', ''Paris'', 2)] \<and>
   count_list (pairs [''Bob'', ''Paris'']) (''Bob'', ''Paris'') +
     count_list (pairs [''Bob'', ''Paris'']) (''Paris'', ''Bob'') = 1 \<and>
   (\<exists>view. build_graph kg_ab = Inr view \<and>
      map_of view ''edges'' =
        Some (Edges [\<lparr>source = 2, target = 0, weight = 1\<rparr>, \<lparr>source = 2, target = 1, weight = 1\<rparr>,
                     \<lparr>source = 0, target = 1, weight = 1\<rparr>]))"
proof -
  have h: "\<And>xs :: string list. mset ((\<lambda>xs. xs) xs) = mset xs" by simp
  have k: "add_document (\<lambda>xs. xs)
      (ingest (\<lambda>xs. xs) [(''A'', ''Alice met Bob in Paris.'', [''Alice met Bob in Paris.''])])
      ''B'' ''Bob left Paris.'' [''Bob left Paris.''] = kg_ab"
    using ingest_ab by (simp add: docs_ab_def ingest_def)
  have r: "relationships kg_ab =
     [(''Alice'', ''Bob'', 1), (''Alice'', ''Paris'', 1), (''Bob'', ''Paris'', 1), (''Bob'', ''Paris'', 2)]"
    by (simp add: kg_ab_def)
  have tp: "map fst (most_common 30 (entity_frequencies kg_ab)) = [''Bob'', ''Paris'', ''Alice'']"
    by (simp add: kg_ab_def most_common_def)
  have ed: "map (to_edge [''Bob'', ''Paris'', ''Alice''])
       (first_per_pair (filter (selected [''Bob'', ''Paris'', ''Alice'']) (relationships kg_ab))) =
     [\<lparr>source = 2, target = 0, weight = 1\<rparr>, \<lparr>source = 2, target = 1, weight = 1\<rparr>,
      \<lparr>source = 0, target = 1, weight = 1\<rparr>]"
    unfolding r by code_simp
  note t = relationships_per_pair [of "\<lambda>xs. xs", OF h,
      of "[(''A'', ''Alice met Bob in Paris.'', [''Alice met Bob in Paris.''])]"
         "''B''" "''Bob left Paris.''" "[''Bob left Paris.'']", unfolded k extract_b tp ed]
  from t have c: "count_list (pairs [''Bob'', ''Paris'']) (''Bob'', ''Paris'') +
     count_list (pairs [''Bob'', ''Paris'']) (''Paris'', ''Bob'') = 1" by simp
  from t have v: "\<exists>view. build_graph kg_ab = Inr view \<and>
      map_of view ''edges'' =
        Some (Edges [\<lparr>source = 2, target = 0, weight = 1\<rparr>, \<lparr>source = 2, target = 1, weight = 1\<rparr>,
                     \<lparr>source = 0, target = 1, weight = 1\<rparr>])" by blast
  from k r c v show ?thesis by simp
qed

subsection \<open>Entity details\<close>

lemma related_rows_raw:
  "related_rows self entity =
     map (\<lambda>(a, b, w). (if a = entity then b else a, w))
       (filter (\<lambda>(a, b, w). a = entity \<or> b = entity) (relationships self))"
proof -
  have "concat (map (\<lambda>(e1, e2, w). if e1 = entity then [(e2, w)]
                    else if e2 = entity then [(e1, w)] else []) rs) =
        map (\<lambda>(a, b, w). (if a = entity then b else a, w))
          (filter (\<lambda>(a, b, w). a = entity \<or> b = entity) rs)" for rs :: "(string \<times> string \<times> nat) list"
    by (induction rs) (auto split: if_splits)
  then show ?thesis by (simp add: related_rows_def)
qed

lemma sorted_desc_sort_key:
  "sorted_wrt (\<lambda>x y. snd y \<le> snd x) (sort_key (\<lambda>(e, w). - int w) (rows :: ('a \<times> nat) list))"
proof -
  have "sorted (map (\<lambda>(e, w). - int w) (sort_key (\<lambda>(e, w). - int w) rows))"
    by (rule sorted_sort_key)
  then show ?thesis
    by (simp add: sorted_map) (erule sorted_wrt_mono_rel [rotated], auto)
qed

lemma take_heaviest:
  assumes "sorted_wrt (\<lambda>x y. snd y \<le> snd x) ys"
  shows "\<forall>x \<in># mset ys - mset (take n ys). \<forall>y \<in> set (take n ys). snd x \<le> snd y"
proof -
  have "mset ys = mset (take n ys) + mset (drop n ys)"
    by (metis append_take_drop_id mset_append)
  then have d: "mset ys - mset (take n ys) = mset (drop n ys)" by simp
  from assms have "sorted_wrt (\<lambda>x y. snd y \<le> snd x) (take n ys @ drop n ys)" by simp
  then have "\<forall>y \<in> set (take n ys). \<forall>x \<in> set (drop n ys). snd x \<le> snd y"
    by (simp only: sorted_wrt_append) blast
  with d show ?thesis by auto
qed

text \<open>
  C9. For an entity that is not a key of \<open>self.entities\<close>, \<open>get_entity_details\<close>
  returns \<open>None\<close>. For a key it returns the entity's frequency and document ids and
  the rows \<open>related_entities\<close>: at most 5 of them, by descending weight, each one a row
  of the relationship list as it stands (one row for every triple that names the entity,
  none merged), and no row left out is heavier than a row returned.
\<close>

theorem get_entity_details_result:
  "(entity \<notin> fst ` set (entities self) \<longrightarrow> get_entity_details self entity = None) \<and>
   (entity \<in> fst ` set (entities self) \<longrightarrow>
      (\<exists>r. get_entity_details self entity = Some r \<and>
           det_entity r = entity \<and>
           det_frequency r = counter_get (entity_frequencies self) entity \<and>
           det_documents r = dd_get (entities self) entity \<and>
           length (related_entities r) = min 5 (length (related_rows self entity)) \<and>
           sorted_wrt (\<lambda>x y. snd y \<le> snd x) (related_entities r) \<and>
           mset (related_entities r) \<subseteq># mset (related_rows self entity) \<and>
           (\<forall>x \<in># mset (related_rows self entity) - mset (related_entities r).
              \<forall>y \<in> set (related_entities r). snd x \<le> snd y))) \<and>
   related_rows self entity =
     map (\<lambda>(a, b, w). (if a = entity then b else a, w))
       (filter (\<lambda>(a, b, w). a = entity \<or> b = entity) (relationships self))"
proof (intro conjI impI)
  show "get_entity_details self entity = None" if "entity \<notin> fst ` set (entities self)"
    using that by (simp add: get_entity_details_def)
  show "related_rows self entity =
     map (\<lambda>(a, b, w). (if a = entity then b else a, w))
       (filter (\<lambda>(a, b, w). a = entity \<or> b = entity) (relationships self))"
    by (rule related_rows_raw)
next
  assume t: "entity \<in> fst ` set (entities self)"
  let ?rows = "related_rows self entity"
  let ?sorted = "sort_key (\<lambda>(e, w). - int w) ?rows"
  let ?r = "\<lparr>det_entity = entity,
             det_frequency = counter_get (entity_frequencies self) entity,
             det_documents = dd_get (entities self) entity,
             related_entities = take 5 ?sorted\<rparr>"
  have r: "get_entity_details self entity = Some ?r"
    using t by (simp add: get_entity_details_def)
  have s: "sorted_wrt (\<lambda>x y. snd y \<le> snd x) ?sorted" by (rule sorted_desc_sort_key)
  have m: "mset ?sorted = mset ?rows" by simp
  have 1: "length (take 5 ?sorted) = min 5 (length ?rows)" by simp
  have 2: "sorted_wrt (\<lambda>x y. snd y \<le> snd x) (take 5 ?sorted)"
    using s by (rule sorted_wrt_take)
  have 3: "mset (take 5 ?sorted) \<subseteq># mset ?rows"
    by (metis m append_take_drop_id mset_append mset_subset_eq_add_left)
  have 4: "\<forall>x \<in># mset ?rows - mset (take 5 ?sorted). \<forall>y \<in> set (take 5 ?sorted). snd x \<le> snd y"
    using take_heaviest [OF s, of 5] by (simp only: m)
  show "\<exists>r. get_entity_details self entity = Some r \<and>
           det_entity r = entity \<and>
           det_frequency r = counter_get (entity_frequencies self) entity \<and>
           det_documents r = dd_get (entities self) entity \<and>
           length (related_entities r) = min 5 (length (related_rows self entity)) \<and>
           sorted_wrt (\<lambda>x y. snd y \<le> snd x) (related_entities r) \<and>
           mset (related_entities r) \<subseteq># mset (related_rows self entity) \<and>
           (\<forall>x \<in># mset (related_rows self entity) - mset (related_entities r).
              \<forall>y \<in> set (related_entities r). snd x \<le> snd y)"
    using r 1 2 3 4 by (intro exI [of _ ?r]) simp
qed

theorem get_entity_details_result_witness:
  "''Zed'' \<notin> fst ` set (entities kg_ab) \<and>
   get_entity_details kg_ab ''Zed'' = None \<and>
   ''Paris'' \<in> fst ` set (entities kg_ab) \<and>
   related_rows kg_ab ''Paris'' = [(''Alice'', 1), (''Bob'', 1), (''Bob'', 2)] \<and>
   (\<exists>r. get_entity_details kg_ab ''Paris'' = Some r \<and> det_frequency r = 2 \<and>
        det_documents r = {''A'', ''B''} \<and> length (related_entities r) = 3)"
proof -
  have h1: "''Zed'' \<notin> fst ` set (entities kg_ab)" by (simp add: kg_ab_def)
  have h2: "''Paris'' \<in> fst ` set (entities kg_ab)" by (simp add: kg_ab_def)
  have rows: "related_rows kg_ab ''Paris'' = [(''Alice'', 1), (''Bob'', 1), (''Bob'', 2)]"
    by (simp add: related_rows_def kg_ab_def)
  have f: "counter_get (entity_frequencies kg_ab) ''Paris'' = 2"
    by (simp add: counter_get_def kg_ab_def)
  have ds: "dd_get (entities kg_ab) ''Paris'' = {''A'', ''B''}"
    by (simp add: dd_get_def kg_ab_def)
  from get_entity_details_result [of "''Zed''" kg_ab] h1
  have n: "get_entity_details kg_ab ''Zed'' = None" by blast
  from get_entity_details_result [of "''Paris''" kg_ab] h2
  obtain r where "get_entity_details kg_ab ''Paris'' = Some r"
    and "det_frequency r = counter_get (entity_frequencies kg_ab) ''Paris''"
    and "det_documents r = dd_get (entities kg_ab) ''Paris''"
    and "length (related_entities r) = min 5 (length (related_rows kg_ab ''Paris''))"
    by blast
  then have "get_entity_details kg_ab ''Paris'' = Some r \<and> det_frequency r = 2 \<and>
        det_documents r = {''A'', ''B''} \<and> length (related_entities r) = 3"
    by (simp add: f ds rows)
  then show ?thesis using h1 n h2 rows by blast
qed

section \<open>Properties of the similarity index\<close>

subsection \<open>Saving\<close>





subsection \<open>\<open>delete_document\<close>\<close>














subsection \<open>The invariant of the index\<close>













subsection \<open>\<open>similarity_search\<close>\<close>











lemma zip_upt_map: "zip [0 ..< length (map f ps)] (map f ps) = map (\<lambda>(i, p). (i, f p)) (zip [0 ..< length ps] ps)"
  by (simp add: zip_map2)






lemma similarity_search_nonpositive_k:
  "0 < ntotal (index self) \<Longrightarrow> top_k \<le> 0 \<Longrightarrow>
   similarity_search embedder self query top_k = Inl AssertionError"
  by (simp add: similarity_search_def index_search_def Let_def)

lemma similarity_search_wrong_dimension:
  "0 < ntotal (index self) \<Longrightarrow> length (embedder query) \<noteq> d (index self) \<Longrightarrow>
   similarity_search embedder self query top_k = Inl AssertionError"
  by (simp add: similarity_search_def index_search_def generate_embeddings_def Let_def)





end
